theory Spec2Isabelle
  imports Complex_Main "HOL-Library.AList"
begin

section \<open>Word-embedding utilities of \<open>nlp_architect/utils/embedding.py\<close>\<close>

text \<open>
  The module parses text embedding files into dictionaries and aligns the vectors with a
  vocabulary. The functions embedded here are \<open>load_word_embeddings\<close>,
  \<open>fill_embedding_mat\<close>, \<open>get_embedding_matrix\<close> and \<open>load_embedding_file\<close>.

  Conventions of the embedding:
  \<^item> a Python \<open>str\<close> is a \<open>string\<close>; a character is a code point below 256;
  \<^item> a Python \<open>dict\<close> is an association list in insertion order, with distinct keys;
  \<^item> a one-dimensional numpy array is a list; arrays of higher rank carry their shape;
  \<^item> the element type of the vectors is a type variable with a zero, since the code only
    copies elements and creates zeros;
  \<^item> an exception is the \<open>Inl\<close> branch of a sum.
\<close>

subsection \<open>Exceptions\<close>

datatype error = StopIteration | ValueError | IndexError

subsection \<open>Python strings: \<open>str.lower\<close>, \<open>str.split\<close>, \<open>str\<close>\<close>

definition lower_char :: "char \<Rightarrow> char" where
  \<comment> \<open>\<open>A\<close>..\<open>Z\<close> and the upper-case letters of Latin-1 (\<open>0xC0\<close>..\<open>0xDE\<close> but \<open>0xD7\<close>) move by 32.\<close>
  "lower_char c =
     (let n = (of_char c :: nat) in
      if (65 \<le> n \<and> n \<le> 90) \<or> (192 \<le> n \<and> n \<le> 222 \<and> n \<noteq> 215)
      then char_of (n + 32) else c)"

definition lower :: "string \<Rightarrow> string" where
  "lower s = map lower_char s"

definition isspace :: "char \<Rightarrow> bool" where
  \<comment> \<open>The whitespace code points below 256: \<open>\t \n \v \f \r\<close>, \<open>0x1C\<close>..\<open>0x20\<close>, \<open>0x85\<close>, \<open>0xA0\<close>.\<close>
  "isspace c =
     (let n = (of_char c :: nat) in
      (9 \<le> n \<and> n \<le> 13) \<or> (28 \<le> n \<and> n \<le> 32) \<or> n = 133 \<or> n = 160)"

text \<open>
  \<open>s.split()\<close> without a separator: the maximal runs of non-whitespace characters, in
  order. The first argument holds the current run, reversed.
\<close>

fun split_from :: "string \<Rightarrow> string \<Rightarrow> string list" where
  "split_from cur [] = (if cur = [] then [] else [rev cur])"
| "split_from cur (c # cs) =
     (if isspace c
      then (if cur = [] then split_from [] cs else rev cur # split_from [] cs)
      else split_from (c # cur) cs)"

definition split :: "string \<Rightarrow> string list" where
  "split s = split_from [] s"

definition str :: "string option \<Rightarrow> string" where
  \<comment> \<open>\<open>str\<close> of the result of \<open>dict.get\<close>: \<open>None\<close> prints as \<open>None\<close>, a string is itself.\<close>
  "str x = (case x of None \<Rightarrow> ''None'' | Some s \<Rightarrow> s)"

subsection \<open>Dictionaries\<close>

type_synonym ('k, 'v) dict = "('k \<times> 'v) list"

definition get :: "('k, 'v) dict \<Rightarrow> 'k \<Rightarrow> 'v option" where
  \<comment> \<open>\<open>d.get(k)\<close>, \<open>None\<close> when the key is absent.\<close>
  "get d k = map_of d k"

definition setitem :: "('k, 'v) dict \<Rightarrow> 'k \<Rightarrow> 'v \<Rightarrow> ('k, 'v) dict" where
  \<comment> \<open>\<open>d[k] = v\<close>: an existing key keeps its place, a new key goes last.\<close>
  "setitem d k v = AList.update k v d"

subsection \<open>numpy arrays\<close>

record 'a matrix =
  nrows :: nat
  ncols :: nat
  cells :: "'a list list"

record 'a tensor =
  dim0 :: nat
  dim1 :: nat
  dim2 :: nat
  cells3 :: "'a list list list"

definition zeros2 :: "int \<Rightarrow> int \<Rightarrow> error + ('a::zero) matrix" where
  \<comment> \<open>\<open>np.zeros((r, c))\<close>; a negative dimension raises \<open>ValueError\<close>.\<close>
  "zeros2 r c =
     (if r < 0 \<or> c < 0 then Inl ValueError
      else Inr \<lparr>nrows = nat r, ncols = nat c,
                cells = replicate (nat r) (replicate (nat c) 0)\<rparr>)"

definition zeros3 :: "int \<Rightarrow> int \<Rightarrow> int \<Rightarrow> error + ('a::zero) tensor" where
  \<comment> \<open>\<open>np.zeros((a, b, c))\<close>.\<close>
  "zeros3 a b c =
     (if a < 0 \<or> b < 0 \<or> c < 0 then Inl ValueError
      else Inr \<lparr>dim0 = nat a, dim1 = nat b, dim2 = nat c,
                cells3 = replicate (nat a) (replicate (nat b) (replicate (nat c) 0))\<rparr>)"

definition broadcast :: "nat \<Rightarrow> 'a list \<Rightarrow> error + 'a list" where
  \<comment> \<open>Assigning a vector to a row of length \<open>n\<close>: the lengths agree, or the vector has one
      element, which is repeated; anything else raises \<open>ValueError\<close>.\<close>
  "broadcast n vec =
     (if length vec = n then Inr vec
      else if length vec = 1 then Inr (replicate n (hd vec))
      else Inl ValueError)"

definition set_row :: "'a matrix \<Rightarrow> nat \<Rightarrow> 'a list \<Rightarrow> error + 'a matrix" where
  \<comment> \<open>\<open>mat[wid] = vec\<close>: \<open>IndexError\<close> past the last row, then the broadcast.\<close>
  "set_row mat wid vec =
     (if nrows mat \<le> wid then Inl IndexError
      else case broadcast (ncols mat) vec of
             Inl e \<Rightarrow> Inl e
           | Inr r \<Rightarrow> Inr (mat\<lparr>cells := (cells mat)[wid := r]\<rparr>))"

subsection \<open>The vocabulary\<close>

text \<open>
  The class \<open>Vocabulary\<close> lives in \<open>nlp_architect.utils.text\<close>. The matrix builder reads its
  attribute \<open>vocab\<close>, the dictionary from token to id, and its length.
\<close>

record vocabulary =
  vocab :: "(string, nat) dict"

definition len_vocabulary :: "vocabulary \<Rightarrow> nat" where
  \<comment> \<open>Modelled from the spec: \<open>Vocabulary.__len__\<close> is not part of this module; the
      vocabulary interface exposes the total count of distinct tokens.\<close>
  "len_vocabulary V = length (vocab V)"

subsection \<open>\<open>get_embedding_matrix\<close>\<close>

definition first_value_len :: "(string, 'a list) dict \<Rightarrow> error + nat" where
  \<comment> \<open>\<open>len(next(iter(embeddings.values())))\<close>: \<open>StopIteration\<close> on an empty dictionary.\<close>
  "first_value_len embeddings =
     (case embeddings of [] \<Rightarrow> Inl StopIteration | (k, v) # rest \<Rightarrow> Inr (length v))"

fun loop_lowercase ::
  "(string, 'a list) dict \<Rightarrow> (string \<times> nat) list \<Rightarrow> 'a matrix \<Rightarrow> error + 'a matrix" where
  "loop_lowercase embeddings [] mat = Inr mat"
| "loop_lowercase embeddings ((word, wid) # items) mat =
     (case get embeddings (lower word) of
        None \<Rightarrow> loop_lowercase embeddings items mat
      | Some vec \<Rightarrow>
          (case set_row mat wid vec of
             Inl e \<Rightarrow> Inl e
           | Inr mat' \<Rightarrow> loop_lowercase embeddings items mat'))"

fun loop_fallback ::
  "(string, 'a list) dict \<Rightarrow> (string \<times> nat) list \<Rightarrow> 'a matrix \<Rightarrow> error + 'a matrix" where
  "loop_fallback embeddings [] mat = Inr mat"
| "loop_fallback embeddings ((word, wid) # items) mat =
     (let vec = get embeddings word;
          vec = (if vec = None then get embeddings (lower word) else vec)
      in case vec of
           None \<Rightarrow> loop_fallback embeddings items mat
         | Some v \<Rightarrow>
             (case set_row mat wid v of
                Inl e \<Rightarrow> Inl e
              | Inr mat' \<Rightarrow> loop_fallback embeddings items mat'))"

definition get_embedding_matrix ::
  "(string, 'a list) dict \<Rightarrow> vocabulary \<Rightarrow> int option \<Rightarrow> bool \<Rightarrow> error + ('a::zero) matrix" where
  \<comment> \<open>\<open>if embedding_size:\<close> is false for \<open>None\<close> and for \<open>0\<close>.\<close>
  "get_embedding_matrix embeddings V embedding_size lowercase_only =
     (case first_value_len embeddings of
        Inl e \<Rightarrow> Inl e
      | Inr emb_size \<Rightarrow>
          (case (if embedding_size \<noteq> None \<and> embedding_size \<noteq> Some 0
                 then zeros2 (the embedding_size) (int emb_size)
                 else zeros2 (int (len_vocabulary V)) (int emb_size)) of
             Inl e \<Rightarrow> Inl e
           | Inr mat \<Rightarrow>
               (if lowercase_only then loop_lowercase embeddings (vocab V) mat
                else loop_fallback embeddings (vocab V) mat)))"

subsection \<open>Conversion of the numeric fields\<close>

text \<open>
  \<open>np.asarray(fields, dtype="float32")\<close> and \<open>[float(val) for val in fields]\<close> convert every
  field, in order, and raise \<open>ValueError\<close> at the first field that is no number. The
  conversion of one field is library code: it is the parameter \<open>conv\<close>, \<open>None\<close> where the
  field is rejected.
\<close>

fun asarray :: "(string \<Rightarrow> 'a option) \<Rightarrow> string list \<Rightarrow> error + 'a list" where
  "asarray conv [] = Inr []"
| "asarray conv (f # fs) =
     (case conv f of
        None \<Rightarrow> Inl ValueError
      | Some x \<Rightarrow> (case asarray conv fs of Inl e \<Rightarrow> Inl e | Inr xs \<Rightarrow> Inr (x # xs)))"

subsection \<open>\<open>load_word_embeddings\<close>\<close>

text \<open>
  The file is the list of its lines, as the iteration over the open file yields them. The
  state of the loop is the pair of \<open>word_vectors\<close> and \<open>size\<close>. A line with five fields is
  not empty, so that \<open>line[0]\<close> is its head.
\<close>

definition load_line ::
  "(string \<Rightarrow> 'a option) \<Rightarrow> string list option \<Rightarrow> string
     \<Rightarrow> (string, 'a list) dict \<times> nat option \<Rightarrow> error + (string, 'a list) dict \<times> nat option" where
  "load_line conv vocab' line st =
     (let line_fields = split line in
      if length line_fields < 5 then Inr st
      else if hd line = CHR '' '' then
        (case asarray conv line_fields of
           Inl e \<Rightarrow> Inl e
         | Inr v \<Rightarrow> Inr (setitem (fst st) '' '' v, snd st))
      else if (case vocab' of None \<Rightarrow> True | Some ws \<Rightarrow> hd line_fields \<in> set ws) then
        (case asarray conv (tl line_fields) of
           Inl e \<Rightarrow> Inl e
         | Inr v \<Rightarrow>
             Inr (setitem (fst st) (hd line_fields) v,
                  if snd st = None then Some (length (tl line_fields)) else snd st))
      else Inr st)"

fun load_loop ::
  "(string \<Rightarrow> 'a option) \<Rightarrow> string list option \<Rightarrow> string list
     \<Rightarrow> (string, 'a list) dict \<times> nat option \<Rightarrow> error + (string, 'a list) dict \<times> nat option" where
  "load_loop conv vocab' [] st = Inr st"
| "load_loop conv vocab' (line # fp) st =
     (case load_line conv vocab' line st of
        Inl e \<Rightarrow> Inl e
      | Inr st' \<Rightarrow> load_loop conv vocab' fp st')"

definition load_word_embeddings ::
  "(string \<Rightarrow> 'a option) \<Rightarrow> string list \<Rightarrow> string list option
     \<Rightarrow> error + (string, 'a list) dict \<times> nat option" where
  "load_word_embeddings conv fp vocab' = load_loop conv vocab' fp ([], None)"

definition converted_fields :: "string list option \<Rightarrow> string \<Rightarrow> string list" where
  \<comment> \<open>The fields of a line that \<open>load_line\<close> hands to \<open>asarray\<close>: all of them on a line
      that begins with a space, those after the token on a line that passes the filter,
      and none on a line that is skipped.\<close>
  "converted_fields vocab' line =
     (let line_fields = split line in
      if length line_fields < 5 then []
      else if hd line = CHR '' '' then line_fields
      else if (case vocab' of None \<Rightarrow> True | Some ws \<Rightarrow> hd line_fields \<in> set ws)
      then tl line_fields
      else [])"

subsection \<open>\<open>fill_embedding_mat\<close>\<close>

definition set_cell :: "'a tensor \<Rightarrow> nat \<Rightarrow> nat \<Rightarrow> 'a list \<Rightarrow> error + 'a tensor" where
  \<comment> \<open>\<open>emb_mat[i][j] = w_emb\<close>.\<close>
  "set_cell t i j vec =
     (if dim0 t \<le> i \<or> dim1 t \<le> j then Inl IndexError
      else case broadcast (dim2 t) vec of
             Inl e \<Rightarrow> Inl e
           | Inr r \<Rightarrow> Inr (t\<lparr>cells3 := (cells3 t)[i := (cells3 t ! i)[j := r]]\<rparr>))"

fun fill_sentence ::
  "(int, string) dict \<Rightarrow> (string, 'a list) dict \<Rightarrow> nat \<Rightarrow> nat \<Rightarrow> int list
     \<Rightarrow> 'a tensor \<Rightarrow> error + 'a tensor" where
  "fill_sentence src_lex emb_lex i j [] emb_mat = Inr emb_mat"
| "fill_sentence src_lex emb_lex i j (w # sen) emb_mat =
     (if w > 0 then
        (case get emb_lex (lower (str (get src_lex w))) of
           None \<Rightarrow> fill_sentence src_lex emb_lex i (Suc j) sen emb_mat
         | Some w_emb \<Rightarrow>
             (case set_cell emb_mat i j w_emb of
                Inl e \<Rightarrow> Inl e
              | Inr emb_mat' \<Rightarrow> fill_sentence src_lex emb_lex i (Suc j) sen emb_mat'))
      else fill_sentence src_lex emb_lex i (Suc j) sen emb_mat)"

fun fill_sentences ::
  "(int, string) dict \<Rightarrow> (string, 'a list) dict \<Rightarrow> nat \<Rightarrow> int list list
     \<Rightarrow> 'a tensor \<Rightarrow> error + 'a tensor" where
  "fill_sentences src_lex emb_lex i [] emb_mat = Inr emb_mat"
| "fill_sentences src_lex emb_lex i (sen # rest) emb_mat =
     (case fill_sentence src_lex emb_lex i 0 sen emb_mat of
        Inl e \<Rightarrow> Inl e
      | Inr emb_mat' \<Rightarrow> fill_sentences src_lex emb_lex (Suc i) rest emb_mat')"

definition fill_embedding_mat ::
  "int matrix \<Rightarrow> (int, string) dict \<Rightarrow> (string, 'a list) dict \<Rightarrow> int
     \<Rightarrow> error + ('a::zero) tensor" where
  "fill_embedding_mat src_mat src_lex emb_lex emb_size =
     (case zeros3 (int (nrows src_mat)) (int (ncols src_mat)) emb_size of
        Inl e \<Rightarrow> Inl e
      | Inr emb_mat \<Rightarrow> fill_sentences src_lex emb_lex 0 (cells src_mat) emb_mat)"

subsection \<open>\<open>load_embedding_file\<close>\<close>

definition file_line ::
  "(string \<Rightarrow> 'a option) \<Rightarrow> string \<Rightarrow> (string, 'a list) dict \<Rightarrow> error + (string, 'a list) dict" where
  \<comment> \<open>\<open>split_line[0]\<close> raises \<open>IndexError\<close> on a line without a field.\<close>
  "file_line conv line embedding_dict =
     (case split line of
        [] \<Rightarrow> Inl IndexError
      | word # rest \<Rightarrow>
          (case asarray conv rest of
             Inl e \<Rightarrow> Inl e
           | Inr vec \<Rightarrow> Inr (setitem embedding_dict word vec)))"

fun file_loop ::
  "(string \<Rightarrow> 'a option) \<Rightarrow> string list \<Rightarrow> (string, 'a list) dict \<Rightarrow> error + (string, 'a list) dict" where
  "file_loop conv [] embedding_dict = Inr embedding_dict"
| "file_loop conv (line # fp) embedding_dict =
     (case file_line conv line embedding_dict of
        Inl e \<Rightarrow> Inl e
      | Inr d \<Rightarrow> file_loop conv fp d)"

definition load_embedding_file ::
  "(string \<Rightarrow> 'a option) \<Rightarrow> string list \<Rightarrow> error + (string, 'a list) dict" where
  "load_embedding_file conv fp = file_loop conv fp []"

subsection \<open>Well-formed arrays and the loops in general\<close>

definition wf_matrix :: "'a matrix \<Rightarrow> bool" where
  \<comment> \<open>The cells of a two-dimensional array agree with its shape.\<close>
  "wf_matrix m =
     (length (cells m) = nrows m \<and> list_all (\<lambda>r. length r = ncols m) (cells m))"

definition row_count :: "vocabulary \<Rightarrow> int option \<Rightarrow> int" where
  \<comment> \<open>The first dimension \<open>get_embedding_matrix\<close> passes to \<open>np.zeros\<close>.\<close>
  "row_count V embedding_size =
     (if embedding_size \<noteq> None \<and> embedding_size \<noteq> Some 0
      then the embedding_size else int (len_vocabulary V))"

text \<open>Both loops of \<open>get_embedding_matrix\<close> are instances of one loop over a lookup.\<close>

fun row_loop ::
  "(string \<Rightarrow> 'a list option) \<Rightarrow> (string \<times> nat) list \<Rightarrow> 'a matrix \<Rightarrow> error + 'a matrix" where
  "row_loop look [] mat = Inr mat"
| "row_loop look ((word, wid) # items) mat =
     (case look word of
        None \<Rightarrow> row_loop look items mat
      | Some vec \<Rightarrow>
          (case set_row mat wid vec of
             Inl e \<Rightarrow> Inl e
           | Inr mat' \<Rightarrow> row_loop look items mat'))"

text \<open>
  What one iteration of the inner loop of \<open>fill_embedding_mat\<close> does to the cell it
  visits: \<open>old\<close> before, \<open>new\<close> after, for the id \<open>w\<close> and cells of length \<open>n\<close>.
\<close>

definition cell_written ::
  "(int, string) dict \<Rightarrow> (string, 'a list) dict \<Rightarrow> nat \<Rightarrow> int \<Rightarrow> 'a list \<Rightarrow> 'a list \<Rightarrow> bool" where
  "cell_written src_lex emb_lex n w old new =
     (if w > 0 then
        (case get emb_lex (lower (str (get src_lex w))) of
           None \<Rightarrow> new = old
         | Some w_emb \<Rightarrow> broadcast n w_emb = Inr new)
      else new = old)"

subsection \<open>Sample inputs\<close>

definition digit :: "char \<Rightarrow> nat option" where
  "digit c =
     (let n = (of_char c :: nat) in if 48 \<le> n \<and> n \<le> 57 then Some (n - 48) else None)"

fun digits :: "nat \<Rightarrow> string \<Rightarrow> nat option" where
  "digits acc [] = Some acc"
| "digits acc (c # cs) =
     (case digit c of None \<Rightarrow> None | Some d \<Rightarrow> digits (10 * acc + d) cs)"

definition decimal :: "string \<Rightarrow> real option" where
  \<comment> \<open>A conversion for the sample files: unsigned decimal literals \<open>12\<close> and \<open>12.5\<close>, a
      fragment of what \<open>float\<close> accepts.\<close>
  "decimal s =
     (let ip = takeWhile (\<lambda>c. c \<noteq> CHR ''.'') s; fp = drop (Suc (length ip)) s in
      if ip = [] \<or> (fp = [] \<and> length ip < length s) then None
      else case (digits 0 ip, digits 0 fp) of
             (Some a, Some b) \<Rightarrow> Some (real a + real b / 10 ^ length fp)
           | _ \<Rightarrow> None)"

definition ex_table :: "(string, real list) dict" where
  "ex_table = [(''cat'', [1, 1]), (''DOG'', [2, 2])]"

definition ex_vocab :: vocabulary where
  "ex_vocab = \<lparr>vocab = [(''cat'', 1), (''dog'', 2)]\<rparr>"

definition ex_table_lc :: "(string, real list) dict" where
  "ex_table_lc = [(''cat'', [1, 1]), (''dog'', [2, 2])]"

definition ex_vocab_uc :: vocabulary where
  "ex_vocab_uc = \<lparr>vocab = [(''cat'', 1), (''DOG'', 2)]\<rparr>"

section \<open>Properties\<close>

text \<open>
  Claim C6. Applied to an empty embedding table, \<open>get_embedding_matrix\<close> fails with an
  error (the \<open>StopIteration\<close> of \<open>next\<close> on an exhausted iterator) and returns no matrix,
  whatever the vocabulary, the row-count override and the lowercase flag are.
\<close>

theorem get_embedding_matrix_empty_table:
  "get_embedding_matrix [] V embedding_size lowercase_only = Inl StopIteration"
  by (simp add: get_embedding_matrix_def first_value_len_def)

subsection \<open>The loops of \<open>get_embedding_matrix\<close>\<close>

lemma loop_lowercase_row_loop:
  "loop_lowercase emb items mat = row_loop (\<lambda>w. get emb (lower w)) items mat"
  by (induction items arbitrary: mat) (auto split: option.splits sum.splits)

lemma loop_fallback_row_loop:
  "loop_fallback emb items mat =
   row_loop (\<lambda>w. case get emb w of None \<Rightarrow> get emb (lower w) | Some v \<Rightarrow> Some v) items mat"
  by (induction items arbitrary: mat) (auto simp: Let_def split: option.splits sum.splits)

lemma broadcast_length: "broadcast n v = Inr r \<Longrightarrow> length r = n"
  by (auto simp: broadcast_def split: if_splits)

lemma broadcast_same: "length v = n \<Longrightarrow> broadcast n v = Inr v"
  by (simp add: broadcast_def)

lemma set_row_Inr:
  assumes "set_row mat i v = Inr mat'"
  shows "i < nrows mat" and "nrows mat' = nrows mat" and "ncols mat' = ncols mat"
    and "\<exists>r. broadcast (ncols mat) v = Inr r \<and> cells mat' = (cells mat)[i := r]"
  using assms by (auto simp: set_row_def split: if_splits sum.splits)

lemma set_row_wf:
  assumes "set_row mat i v = Inr mat'" "wf_matrix mat"
  shows "wf_matrix mat'"
proof -
  from set_row_Inr[OF assms(1)] obtain r where
    r: "broadcast (ncols mat) v = Inr r" "cells mat' = (cells mat)[i := r]"
    and s: "nrows mat' = nrows mat" "ncols mat' = ncols mat" by blast
  have "length r = ncols mat" using r(1) by (rule broadcast_length)
  with assms(2) r(2) s show ?thesis
    by (auto simp: wf_matrix_def list_all_iff dest: set_update_subset_insert[THEN subsetD])
qed

lemma row_loop_shape:
  "row_loop look items mat = Inr mat' \<Longrightarrow> nrows mat' = nrows mat \<and> ncols mat' = ncols mat"
proof (induction items arbitrary: mat)
  case Nil then show ?case by simp
next
  case (Cons p items)
  obtain w i where p: "p = (w, i)" by (cases p)
  show ?case
  proof (cases "look w")
    case None with Cons p show ?thesis by simp
  next
    case (Some v)
    from Cons.prems p Some obtain m where
      m: "set_row mat i v = Inr m" "row_loop look items m = Inr mat'"
      by (auto split: sum.splits)
    from Cons.IH[OF m(2)] set_row_Inr(2,3)[OF m(1)] show ?thesis by simp
  qed
qed

lemma row_loop_wf:
  "row_loop look items mat = Inr mat' \<Longrightarrow> wf_matrix mat \<Longrightarrow> wf_matrix mat'"
proof (induction items arbitrary: mat)
  case Nil then show ?case by simp
next
  case (Cons p items)
  obtain w i where p: "p = (w, i)" by (cases p)
  show ?case
  proof (cases "look w")
    case None with Cons p show ?thesis by simp
  next
    case (Some v)
    from Cons.prems(1) p Some obtain m where
      m: "set_row mat i v = Inr m" "row_loop look items m = Inr mat'"
      by (auto split: sum.splits)
    from Cons.IH[OF m(2) set_row_wf[OF m(1) Cons.prems(2)]] show ?thesis .
  qed
qed

lemma row_loop_untouched:
  "row_loop look items mat = Inr mat' \<Longrightarrow>
   i \<notin> snd ` {p \<in> set items. look (fst p) \<noteq> None} \<Longrightarrow> cells mat' ! i = cells mat ! i"
proof (induction items arbitrary: mat)
  case Nil then show ?case by simp
next
  case (Cons p items)
  obtain w j where p: "p = (w, j)" by (cases p)
  have rest: "i \<notin> snd ` {p \<in> set items. look (fst p) \<noteq> None}" using Cons.prems(2) by auto
  show ?case
  proof (cases "look w")
    case None with Cons.prems p Cons.IH[OF _ rest] show ?thesis by simp
  next
    case (Some v)
    from Cons.prems(1) p Some obtain m where
      m: "set_row mat j v = Inr m" "row_loop look items m = Inr mat'"
      by (auto split: sum.splits)
    have "i \<noteq> j" using Cons.prems(2) p Some by force
    with set_row_Inr(4)[OF m(1)] have "cells m ! i = cells mat ! i" by auto
    with Cons.IH[OF m(2) rest] show ?thesis by simp
  qed
qed

lemma row_loop_written:
  assumes "row_loop look items mat = Inr mat'" "distinct (map snd items)"
    "(w, i) \<in> set items" "look w = Some v" "length (cells mat) = nrows mat"
  shows "i < nrows mat \<and> broadcast (ncols mat) v = Inr (cells mat' ! i)"
  using assms
proof (induction items arbitrary: mat)
  case Nil then show ?case by simp
next
  case (Cons p items)
  obtain w' j where p: "p = (w', j)" by (cases p)
  show ?case
  proof (cases "(w, i) = p")
    case True
    with p have eq: "w' = w" "j = i" by auto
    from Cons.prems(1,4) p eq obtain m where
      m: "set_row mat i v = Inr m" "row_loop look items m = Inr mat'"
      by (auto split: sum.splits)
    from set_row_Inr[OF m(1)] obtain r where
      r: "broadcast (ncols mat) v = Inr r" "cells m = (cells mat)[i := r]"
      and lt: "i < nrows mat" by blast
    have "i \<notin> snd ` set items" using Cons.prems(2) p eq by auto
    then have "i \<notin> snd ` {p \<in> set items. look (fst p) \<noteq> None}" by auto
    from row_loop_untouched[OF m(2) this] r lt Cons.prems(5)
    show ?thesis by simp
  next
    case False
    with Cons.prems(3) have mem: "(w, i) \<in> set items" by auto
    have d: "distinct (map snd items)" using Cons.prems(2) by simp
    show ?thesis
    proof (cases "look w'")
      case None
      with Cons.prems(1) p have "row_loop look items mat = Inr mat'" by simp
      from Cons.IH[OF this d mem Cons.prems(4,5)] show ?thesis .
    next
      case (Some v')
      from Cons.prems(1) p Some obtain m where
        m: "set_row mat j v' = Inr m" "row_loop look items m = Inr mat'"
        by (auto split: sum.splits)
      from set_row_Inr[OF m(1)] Cons.prems(5)
      have "length (cells m) = nrows m" "nrows m = nrows mat" "ncols m = ncols mat" by auto
      with Cons.IH[OF m(2) d mem Cons.prems(4)] show ?thesis by simp
    qed
  qed
qed

lemma distinct_snd_unique:
  "distinct (map snd items) \<Longrightarrow> (a, i) \<in> set items \<Longrightarrow> (b, i) \<in> set items \<Longrightarrow> a = b"
  by (induction items) (auto simp: image_iff)

lemma zeros2_Inr:
  "zeros2 r c = Inr m \<Longrightarrow> int (nrows m) = r \<and> int (ncols m) = c
     \<and> cells m = replicate (nrows m) (replicate (ncols m) 0)"
  by (auto simp: zeros2_def split: if_splits)

lemma row_loop_row:
  assumes l: "row_loop look items m = Inr mat"
    and d: "distinct (map snd items)" and mem: "(word, wid) \<in> set items"
    and c: "cells m = replicate (nrows m) (replicate (ncols m) 0)"
  shows "case look word of
           Some vec \<Rightarrow> wid < nrows mat \<and> broadcast (ncols mat) vec = Inr (cells mat ! wid)
         | None \<Rightarrow> wid < nrows mat \<longrightarrow> cells mat ! wid = replicate (ncols mat) 0"
proof -
  have wf: "length (cells m) = nrows m" by (subst c) simp
  from row_loop_shape[OF l] have sh: "nrows mat = nrows m" "ncols mat = ncols m" by auto
  show ?thesis
  proof (cases "look word")
    case None
    have "wid \<notin> snd ` {p \<in> set items. look (fst p) \<noteq> None}"
    proof
      assume "wid \<in> snd ` {p \<in> set items. look (fst p) \<noteq> None}"
      then obtain w' where w': "(w', wid) \<in> set items" "look w' \<noteq> None" by force
      from distinct_snd_unique[OF d w'(1) mem] have "w' = word" .
      with w'(2) None show False by simp
    qed
    from row_loop_untouched[OF l this] have "cells mat ! wid = cells m ! wid" .
    with c sh None show ?thesis by simp
  next
    case (Some v)
    from row_loop_written[OF l d mem Some wf] sh Some show ?thesis by simp
  qed
qed

lemma gem_lowercase:
  assumes "get_embedding_matrix emb V es True = Inr mat"
  shows "\<exists>n m. first_value_len emb = Inr n \<and> zeros2 (row_count V es) (int n) = Inr m
            \<and> row_loop (\<lambda>w. get emb (lower w)) (vocab V) m = Inr mat"
  using assms unfolding get_embedding_matrix_def row_count_def
  by (auto simp: loop_lowercase_row_loop split: sum.splits if_splits)

lemma gem_fallback:
  assumes "get_embedding_matrix emb V es False = Inr mat"
  shows "\<exists>n m. first_value_len emb = Inr n \<and> zeros2 (row_count V es) (int n) = Inr m
            \<and> row_loop (\<lambda>w. case get emb w of None \<Rightarrow> get emb (lower w) | Some v \<Rightarrow> Some v)
                 (vocab V) m = Inr mat"
  using assms unfolding get_embedding_matrix_def row_count_def
  by (auto simp: loop_fallback_row_loop split: sum.splits if_splits)

lemma gem_shape:
  assumes "get_embedding_matrix emb V es lc = Inr mat"
  shows "int (nrows mat) = row_count V es \<and> first_value_len emb = Inr (ncols mat)
         \<and> wf_matrix mat"
proof -
  have "\<exists>n m look. first_value_len emb = Inr n \<and> zeros2 (row_count V es) (int n) = Inr m
            \<and> row_loop look (vocab V) m = Inr mat"
  proof (cases lc)
    case True
    with assms have "get_embedding_matrix emb V es True = Inr mat" by simp
    from gem_lowercase[OF this] show ?thesis by blast
  next
    case False
    with assms have "get_embedding_matrix emb V es False = Inr mat" by simp
    from gem_fallback[OF this] show ?thesis by blast
  qed
  then obtain n m look where f: "first_value_len emb = Inr n"
    and z: "zeros2 (row_count V es) (int n) = Inr m"
    and l: "row_loop look (vocab V) m = Inr mat" by blast
  from zeros2_Inr[OF z] have zz: "int (nrows m) = row_count V es" "int (ncols m) = int n"
    "cells m = replicate (nrows m) (replicate (ncols m) 0)" by auto
  then have wf: "wf_matrix m" by (simp add: wf_matrix_def list_all_iff)
  from row_loop_wf[OF l wf] row_loop_shape[OF l] zz f show ?thesis by simp
qed

text \<open>
  Claim C2. With \<open>lowercase_only=True\<close> only the lowercased token is looked up, and the
  keys of the table are compared as they are. For a vocabulary with unique ids and every
  pair \<open>(word, wid)\<close> of it: when the table has the key \<open>word.lower()\<close>, row \<open>wid\<close> exists and
  holds that vector (as numpy assigns it to a row of the inferred width); otherwise row \<open>wid\<close>
  is all zeros, whether or not the table has the key \<open>word\<close> itself. On the vocabulary
  \<open>{"cat": 1, "dog": 2}\<close> and the table \<open>{"cat": [1,1], "DOG": [2,2]}\<close> row 1 is \<open>[1,1]\<close> and
  nothing is written for \<open>dog\<close>: the matrix of the default size has the rows 0 and 1 only,
  and with three rows row 2 is all zeros. The token is lowercased: the vocabulary token
  \<open>DOG\<close> finds the table key \<open>dog\<close>. The exact key is not tried: for the token \<open>Cat\<close> and a
  table with both \<open>cat\<close> and \<open>Cat\<close> the row holds the vector of \<open>cat\<close>, and for the token
  \<open>Cat\<close> and a table with the key \<open>Cat\<close> only the row stays zero.
\<close>

theorem lowercase_only_lookup:
  fixes emb :: "(string, 'a::zero list) dict"
  shows "(get_embedding_matrix emb V es True = Inr mat \<and> distinct (map snd (vocab V))
          \<and> (word, wid) \<in> set (vocab V) \<longrightarrow>
          (case get emb (lower word) of
             Some vec \<Rightarrow> wid < nrows mat \<and> broadcast (ncols mat) vec = Inr (cells mat ! wid)
           | None \<Rightarrow> wid < nrows mat \<longrightarrow> cells mat ! wid = replicate (ncols mat) 0))
       \<and> get_embedding_matrix ex_table ex_vocab None True
           = Inr \<lparr>nrows = 2, ncols = 2, cells = [[0, 0], [1, 1]]\<rparr>
       \<and> get_embedding_matrix ex_table ex_vocab (Some 3) True
           = Inr \<lparr>nrows = 3, ncols = 2, cells = [[0, 0], [1, 1], [0, 0]]\<rparr>
       \<and> get_embedding_matrix ex_table_lc ex_vocab_uc (Some 3) True
           = Inr \<lparr>nrows = 3, ncols = 2, cells = [[0, 0], [1, 1], [2, 2]]\<rparr>
       \<and> get_embedding_matrix [(''cat'', [1, 1 :: real]), (''Cat'', [3, 3])]
             \<lparr>vocab = [(''Cat'', 0)]\<rparr> None True
           = Inr \<lparr>nrows = 1, ncols = 2, cells = [[1, 1]]\<rparr>
       \<and> get_embedding_matrix [(''Cat'', [3, 3 :: real])]
             \<lparr>vocab = [(''Cat'', 0)]\<rparr> None True
           = Inr \<lparr>nrows = 1, ncols = 2, cells = [[0, 0]]\<rparr>"
proof (intro conjI impI)
  assume a: "get_embedding_matrix emb V es True = Inr mat \<and> distinct (map snd (vocab V))
          \<and> (word, wid) \<in> set (vocab V)"
  from gem_lowercase[of emb V es mat] a obtain n m where
    z: "zeros2 (row_count V es) (int n) = Inr m"
    and l: "row_loop (\<lambda>w. get emb (lower w)) (vocab V) m = Inr mat" by blast
  from zeros2_Inr[OF z] have c: "cells m = replicate (nrows m) (replicate (ncols m) 0)" by simp
  from row_loop_row[where look = "\<lambda>w. get emb (lower w)", OF l _ _ c] a
  show "case get emb (lower word) of
             Some vec \<Rightarrow> wid < nrows mat \<and> broadcast (ncols mat) vec = Inr (cells mat ! wid)
           | None \<Rightarrow> wid < nrows mat \<longrightarrow> cells mat ! wid = replicate (ncols mat) 0" by simp
next
  show "get_embedding_matrix ex_table ex_vocab None True
           = Inr \<lparr>nrows = 2, ncols = 2, cells = [[0, 0], [1, 1]]\<rparr>" by code_simp
next
  show "get_embedding_matrix ex_table ex_vocab (Some 3) True
           = Inr \<lparr>nrows = 3, ncols = 2, cells = [[0, 0], [1, 1], [0, 0]]\<rparr>" by code_simp
next
  show "get_embedding_matrix ex_table_lc ex_vocab_uc (Some 3) True
           = Inr \<lparr>nrows = 3, ncols = 2, cells = [[0, 0], [1, 1], [2, 2]]\<rparr>" by code_simp
next
  show "get_embedding_matrix [(''cat'', [1, 1 :: real]), (''Cat'', [3, 3])]
             \<lparr>vocab = [(''Cat'', 0)]\<rparr> None True
           = Inr \<lparr>nrows = 1, ncols = 2, cells = [[1, 1]]\<rparr>" by code_simp
next
  show "get_embedding_matrix [(''Cat'', [3, 3 :: real])]
             \<lparr>vocab = [(''Cat'', 0)]\<rparr> None True
           = Inr \<lparr>nrows = 1, ncols = 2, cells = [[0, 0]]\<rparr>" by code_simp
qed

theorem lowercase_only_lookup_witness:
  "get_embedding_matrix ex_table_lc ex_vocab_uc (Some 3) True
     = Inr \<lparr>nrows = 3, ncols = 2, cells = [[0, 0], [1, 1], [2, 2]]\<rparr>
   \<and> distinct (map snd (vocab ex_vocab_uc)) \<and> (''DOG'', 2) \<in> set (vocab ex_vocab_uc)
   \<and> get ex_table_lc ''DOG'' = None \<and> lower ''DOG'' = ''dog''
   \<and> get ex_table_lc (lower ''DOG'') = Some [2, 2]
   \<and> 2 < nrows \<lparr>nrows = 3, ncols = 2, cells = [[0, 0], [1, 1], [2, 2 :: real]]\<rparr>
   \<and> broadcast (ncols \<lparr>nrows = 3, ncols = 2, cells = [[0, 0], [1, 1], [2, 2 :: real]]\<rparr>) [2, 2]
        = Inr (cells \<lparr>nrows = 3, ncols = 2, cells = [[0, 0], [1, 1], [2, 2 :: real]]\<rparr> ! 2)"
proof -
  let ?M = "\<lparr>nrows = 3, ncols = 2, cells = [[0, 0], [1, 1], [2, 2 :: real]]\<rparr>"
  have a: "get_embedding_matrix ex_table_lc ex_vocab_uc (Some 3) True = Inr ?M
     \<and> distinct (map snd (vocab ex_vocab_uc)) \<and> (''DOG'', 2) \<in> set (vocab ex_vocab_uc)"
    by code_simp
  have g: "get ex_table_lc ''DOG'' = None" "lower ''DOG'' = ''dog''"
    "get ex_table_lc (lower ''DOG'') = Some [2, 2]" by code_simp+
  from lowercase_only_lookup[where emb = ex_table_lc and V = ex_vocab_uc and es = "Some 3"
      and mat = ?M and word = "''DOG''" and wid = 2] a g(3)
  have "2 < nrows ?M \<and> broadcast (ncols ?M) [2, 2] = Inr (cells ?M ! 2)"
    by (simp del: nth_Cons_numeral)
  with a g show ?thesis by blast
qed

text \<open>
  Claim C1, as the code has it. With \<open>lowercase_only=False\<close> the exact token is looked up
  first and the lowercased token second; the keys of the table are never lowercased. For a
  vocabulary with unique ids and every pair \<open>(word, wid)\<close> of it, row \<open>wid\<close> holds the vector
  of \<open>word\<close> if the table has it, else the vector of \<open>word.lower()\<close> if the table has that,
  and is all zeros otherwise. On the vocabulary \<open>{"cat": 1, "dog": 2}\<close> and the table
  \<open>{"cat": [1,1], "DOG": [2,2]}\<close> row 1 is \<open>[1,1]\<close> and row 2 stays zero, since neither
  \<open>dog\<close> nor its lowercase is a key; the fallback matches the other way round, the
  vocabulary token \<open>DOG\<close> with the table key \<open>dog\<close>.
\<close>

theorem exact_then_lowercase_lookup:
  fixes emb :: "(string, 'a::zero list) dict"
  shows "(get_embedding_matrix emb V es False = Inr mat \<and> distinct (map snd (vocab V))
          \<and> (word, wid) \<in> set (vocab V) \<longrightarrow>
          (case get emb word of
             Some vec \<Rightarrow> wid < nrows mat \<and> broadcast (ncols mat) vec = Inr (cells mat ! wid)
           | None \<Rightarrow>
              (case get emb (lower word) of
                 Some vec \<Rightarrow>
                   wid < nrows mat \<and> broadcast (ncols mat) vec = Inr (cells mat ! wid)
               | None \<Rightarrow> wid < nrows mat \<longrightarrow> cells mat ! wid = replicate (ncols mat) 0)))
       \<and> get_embedding_matrix ex_table ex_vocab (Some 3) False
           = Inr \<lparr>nrows = 3, ncols = 2, cells = [[0, 0], [1, 1], [0, 0]]\<rparr>
       \<and> get_embedding_matrix ex_table_lc ex_vocab_uc (Some 3) False
           = Inr \<lparr>nrows = 3, ncols = 2, cells = [[0, 0], [1, 1], [2, 2]]\<rparr>"
proof (intro conjI impI)
  assume a: "get_embedding_matrix emb V es False = Inr mat \<and> distinct (map snd (vocab V))
          \<and> (word, wid) \<in> set (vocab V)"
  let ?look = "\<lambda>w. case get emb w of None \<Rightarrow> get emb (lower w) | Some v \<Rightarrow> Some v"
  from gem_fallback[of emb V es mat] a obtain n m where
    z: "zeros2 (row_count V es) (int n) = Inr m"
    and l: "row_loop ?look (vocab V) m = Inr mat" by blast
  from zeros2_Inr[OF z] have c: "cells m = replicate (nrows m) (replicate (ncols m) 0)" by simp
  from row_loop_row[where look = ?look, OF l _ _ c] a
  have "case ?look word of
          Some vec \<Rightarrow> wid < nrows mat \<and> broadcast (ncols mat) vec = Inr (cells mat ! wid)
        | None \<Rightarrow> wid < nrows mat \<longrightarrow> cells mat ! wid = replicate (ncols mat) 0" by simp
  then show "case get emb word of
             Some vec \<Rightarrow> wid < nrows mat \<and> broadcast (ncols mat) vec = Inr (cells mat ! wid)
           | None \<Rightarrow>
              (case get emb (lower word) of
                 Some vec \<Rightarrow>
                   wid < nrows mat \<and> broadcast (ncols mat) vec = Inr (cells mat ! wid)
               | None \<Rightarrow> wid < nrows mat \<longrightarrow> cells mat ! wid = replicate (ncols mat) 0)"
    by (cases "get emb word") simp_all
next
  show "get_embedding_matrix ex_table ex_vocab (Some 3) False
           = Inr \<lparr>nrows = 3, ncols = 2, cells = [[0, 0], [1, 1], [0, 0]]\<rparr>" by code_simp
next
  show "get_embedding_matrix ex_table_lc ex_vocab_uc (Some 3) False
           = Inr \<lparr>nrows = 3, ncols = 2, cells = [[0, 0], [1, 1], [2, 2]]\<rparr>" by code_simp
qed

theorem exact_then_lowercase_lookup_witness:
  "get_embedding_matrix ex_table_lc ex_vocab_uc (Some 3) False
     = Inr \<lparr>nrows = 3, ncols = 2, cells = [[0, 0], [1, 1], [2, 2]]\<rparr>
   \<and> distinct (map snd (vocab ex_vocab_uc)) \<and> (''DOG'', 2) \<in> set (vocab ex_vocab_uc)
   \<and> get ex_table_lc ''DOG'' = None \<and> get ex_table_lc (lower ''DOG'') = Some [2, 2]
   \<and> 2 < nrows \<lparr>nrows = 3, ncols = 2, cells = [[0, 0], [1, 1], [2, 2 :: real]]\<rparr>
   \<and> broadcast (ncols \<lparr>nrows = 3, ncols = 2, cells = [[0, 0], [1, 1], [2, 2 :: real]]\<rparr>) [2, 2]
        = Inr (cells \<lparr>nrows = 3, ncols = 2, cells = [[0, 0], [1, 1], [2, 2 :: real]]\<rparr> ! 2)"
proof -
  let ?M = "\<lparr>nrows = 3, ncols = 2, cells = [[0, 0], [1, 1], [2, 2 :: real]]\<rparr>"
  have a: "get_embedding_matrix ex_table_lc ex_vocab_uc (Some 3) False = Inr ?M
     \<and> distinct (map snd (vocab ex_vocab_uc)) \<and> (''DOG'', 2) \<in> set (vocab ex_vocab_uc)"
    by code_simp
  have g: "get ex_table_lc ''DOG'' = None" "get ex_table_lc (lower ''DOG'') = Some [2, 2]"
    by code_simp+
  from exact_then_lowercase_lookup[where emb = ex_table_lc and V = ex_vocab_uc
      and es = "Some 3" and mat = ?M and word = "''DOG''" and wid = 2] a g
  have "2 < nrows ?M \<and> broadcast (ncols ?M) [2, 2] = Inr (cells ?M ! 2)"
    by (simp del: nth_Cons_numeral)
  with a g show ?thesis by blast
qed

text \<open>
  The example of claim C1 as the specification states it fails: row 2 is not \<open>[2,2]\<close>. With
  the default size the matrix has two rows; with three rows row 2 is zero.
\<close>

theorem fallback_example_counterexample:
  "get_embedding_matrix ex_table ex_vocab None False
     = Inr \<lparr>nrows = 2, ncols = 2, cells = [[0, 0], [1, 1]]\<rparr>
   \<and> (\<exists>mat. get_embedding_matrix ex_table ex_vocab (Some 3) False = Inr mat
          \<and> cells mat ! 1 = [1, 1] \<and> cells mat ! 2 = [0, 0] \<and> cells mat ! 2 \<noteq> [2, 2])"
proof -
  have 1: "get_embedding_matrix ex_table ex_vocab None False
     = Inr \<lparr>nrows = 2, ncols = 2, cells = [[0, 0], [1, 1]]\<rparr>" by code_simp
  have 2: "get_embedding_matrix ex_table ex_vocab (Some 3) False
     = Inr \<lparr>nrows = 3, ncols = 2, cells = [[0, 0], [1, 1], [0, 0]]\<rparr>" by code_simp
  show ?thesis unfolding 1 2 by simp
qed

text \<open>
  Claim C8, as the code has it. A returned matrix has as many rows as the override says
  when the override is given and is not zero, and as many rows as the vocabulary has
  tokens when the override is \<open>None\<close> or \<open>0\<close> (\<open>if embedding_size:\<close> takes \<open>0\<close> for absent);
  its column count is the dimension inferred from the first entry of the table, and every
  row has that length.
\<close>

theorem matrix_shape:
  assumes "get_embedding_matrix emb V es lc = Inr mat"
  shows "int (nrows mat) =
           (case es of None \<Rightarrow> int (len_vocabulary V)
            | Some n \<Rightarrow> if n = 0 then int (len_vocabulary V) else n)
         \<and> first_value_len emb = Inr (ncols mat)
         \<and> length (cells mat) = nrows mat
         \<and> (\<forall>r \<in> set (cells mat). length r = ncols mat)"
proof -
  from gem_shape[OF assms] have sh: "int (nrows mat) = row_count V es"
    "first_value_len emb = Inr (ncols mat)" "wf_matrix mat" by auto
  have "row_count V es = (case es of None \<Rightarrow> int (len_vocabulary V)
            | Some n \<Rightarrow> if n = 0 then int (len_vocabulary V) else n)"
    by (simp add: row_count_def split: option.splits)
  with sh show ?thesis by (simp add: wf_matrix_def list_all_iff)
qed

theorem matrix_shape_witness:
  "get_embedding_matrix ex_table ex_vocab (Some 3) True
     = Inr \<lparr>nrows = 3, ncols = 2, cells = [[0, 0], [1, 1], [0, 0]]\<rparr>
   \<and> int (nrows \<lparr>nrows = 3, ncols = 2, cells = [[0, 0], [1, 1], [0, 0 :: real]]\<rparr>) = 3
   \<and> first_value_len ex_table = Inr 2
   \<and> get_embedding_matrix ex_table ex_vocab None True
     = Inr \<lparr>nrows = 2, ncols = 2, cells = [[0, 0], [1, 1]]\<rparr>
   \<and> int (nrows \<lparr>nrows = 2, ncols = 2, cells = [[0, 0], [1, 1 :: real]]\<rparr>)
       = int (len_vocabulary ex_vocab)"
proof -
  have a: "get_embedding_matrix ex_table ex_vocab (Some 3) True
     = Inr \<lparr>nrows = 3, ncols = 2, cells = [[0, 0], [1, 1], [0, 0]]\<rparr>" by code_simp
  have b: "get_embedding_matrix ex_table ex_vocab None True
     = Inr \<lparr>nrows = 2, ncols = 2, cells = [[0, 0], [1, 1]]\<rparr>" by code_simp
  from matrix_shape[OF a] matrix_shape[OF b] a b show ?thesis by simp
qed

text \<open>
  Claim C8 as the specification states it fails for the override \<open>0\<close>: the matrix has the
  rows of the vocabulary, not zero rows.
\<close>

theorem zero_override_counterexample:
  "\<exists>mat. get_embedding_matrix [(''cat'', [1, 1 :: real])] \<lparr>vocab = [(''cat'', 0)]\<rparr> (Some 0) False
           = Inr mat
        \<and> nrows mat = 1 \<and> int (nrows mat) \<noteq> 0 \<and> cells mat = [[1, 1]]"
proof -
  have "get_embedding_matrix [(''cat'', [1, 1 :: real])] \<lparr>vocab = [(''cat'', 0)]\<rparr> (Some 0) False
           = Inr \<lparr>nrows = 1, ncols = 2, cells = [[1, 1]]\<rparr>" by code_simp
  then show ?thesis by simp
qed

subsection \<open>The loop of \<open>load_word_embeddings\<close>\<close>

lemma get_setitem: "get (setitem d k v) k' = (if k' = k then Some v else get d k')"
  by (simp add: get_def setitem_def update_conv')

lemma keys_setitem: "fst ` set (setitem d k v) = insert k (fst ` set d)"
  by (simp add: setitem_def dom_update)

lemma asarray_total:
  "\<forall>f \<in> set fs. conv f \<noteq> None \<Longrightarrow> \<exists>v. asarray conv fs = Inr v"
  by (induction fs) (auto split: option.splits sum.splits)

lemma load_line_short: "length (split l) < 5 \<Longrightarrow> load_line conv v l st = Inr st"
  by (simp add: load_line_def)

lemma load_loop_filter:
  "load_loop conv v ls st = load_loop conv v (filter (\<lambda>l. 5 \<le> length (split l)) ls) st"
proof (induction ls arbitrary: st)
  case Nil show ?case by simp
next
  case (Cons l ls)
  show ?case
  proof (cases "length (split l) < 5")
    case True
    then show ?thesis using Cons.IH by (simp add: load_line_short)
  next
    case False
    then show ?thesis using Cons.IH by (simp split: sum.splits)
  qed
qed

lemma load_line_keeps:
  "load_line conv v l st = Inr st' \<Longrightarrow> get (fst st) k \<noteq> None \<Longrightarrow> get (fst st') k \<noteq> None"
  by (auto simp: load_line_def Let_def get_setitem split: if_splits sum.splits)

lemma load_loop_keeps:
  "load_loop conv v ls st = Inr st' \<Longrightarrow> get (fst st) k \<noteq> None \<Longrightarrow> get (fst st') k \<noteq> None"
proof (induction ls arbitrary: st)
  case Nil then show ?case by simp
next
  case (Cons l ls)
  from Cons.prems(1) obtain st1 where s: "load_line conv v l st = Inr st1"
    "load_loop conv v ls st1 = Inr st'" by (auto split: sum.splits)
  from Cons.IH[OF s(2) load_line_keeps[OF s(1) Cons.prems(2)]] show ?case .
qed

lemma load_line_space:
  "load_line conv v l st = Inr st' \<Longrightarrow> 5 \<le> length (split l) \<Longrightarrow> hd l = CHR '' ''
   \<Longrightarrow> get (fst st') '' '' \<noteq> None"
  by (auto simp: load_line_def Let_def get_setitem split: if_splits sum.splits)

lemma load_loop_space:
  "load_loop conv v ls st = Inr st' \<Longrightarrow> l \<in> set ls \<Longrightarrow> 5 \<le> length (split l)
   \<Longrightarrow> hd l = CHR '' '' \<Longrightarrow> get (fst st') '' '' \<noteq> None"
proof (induction ls arbitrary: st)
  case Nil then show ?case by simp
next
  case (Cons a ls)
  from Cons.prems(1) obtain st1 where s: "load_line conv v a st = Inr st1"
    "load_loop conv v ls st1 = Inr st'" by (auto split: sum.splits)
  show ?case
  proof (cases "l = a")
    case True
    with load_line_space[OF s(1)] Cons.prems have "get (fst st1) '' '' \<noteq> None" by simp
    from load_loop_keeps[OF s(2) this] show ?thesis .
  next
    case False
    with Cons.prems(2) have "l \<in> set ls" by simp
    from Cons.IH[OF s(2) this Cons.prems(3,4)] show ?thesis .
  qed
qed

lemma load_line_size:
  assumes "load_line conv v l st = Inr st'"
  shows "snd st' =
     (if snd st = None \<and> 5 \<le> length (split l) \<and> hd l \<noteq> CHR '' ''
          \<and> (case v of None \<Rightarrow> True | Some ws \<Rightarrow> hd (split l) \<in> set ws)
      then Some (length (split l) - 1) else snd st)"
  using assms by (auto simp: load_line_def Let_def split: if_splits sum.splits)

lemma load_loop_size:
  "load_loop conv v ls st = Inr st' \<Longrightarrow>
   snd st' = (case snd st of
                Some n \<Rightarrow> Some n
              | None \<Rightarrow> map_option (\<lambda>l. length (split l) - 1)
                  (find (\<lambda>l. 5 \<le> length (split l) \<and> hd l \<noteq> CHR '' ''
                       \<and> (case v of None \<Rightarrow> True | Some ws \<Rightarrow> hd (split l) \<in> set ws)) ls))"
proof (induction ls arbitrary: st)
  case Nil then show ?case by (simp split: option.splits)
next
  case (Cons l ls)
  from Cons.prems(1) obtain st1 where s: "load_line conv v l st = Inr st1"
    "load_loop conv v ls st1 = Inr st'" by (auto split: sum.splits)
  from Cons.IH[OF s(2)] load_line_size[OF s(1)] show ?case
    by (auto split: option.splits if_splits)
qed

lemma asarray_fails:
  "asarray conv fs = Inr v \<Longrightarrow> \<forall>f \<in> set fs. conv f \<noteq> None"
  by (induction fs arbitrary: v) (auto split: option.splits sum.splits)

lemma asarray_returns_iff:
  "(\<exists>v. asarray conv fs = Inr v) \<longleftrightarrow> (\<forall>f \<in> set fs. conv f \<noteq> None)"
  using asarray_total[of fs conv] asarray_fails[of conv fs] by blast

lemma load_line_returns_iff:
  "(\<exists>st'. load_line conv v l st = Inr st')
     \<longleftrightarrow> (\<forall>f \<in> set (converted_fields v l). conv f \<noteq> None)"
proof -
  have 1: "(\<exists>st'. (case asarray conv fs of Inl e \<Rightarrow> Inl e | Inr x \<Rightarrow> Inr (g x)) = Inr st')
       \<longleftrightarrow> (\<forall>f \<in> set fs. conv f \<noteq> None)" for fs :: "string list"
       and g :: "'a list \<Rightarrow> (string, 'a list) dict \<times> nat option"
    using asarray_returns_iff[of conv fs] by (cases "asarray conv fs") auto
  show ?thesis
    unfolding load_line_def converted_fields_def Let_def
    by (auto simp add: 1 simp del: not_None_eq split_paired_Ex split: option.splits)
qed

lemma load_loop_returns_iff:
  "(\<exists>st'. load_loop conv v ls st = Inr st')
     \<longleftrightarrow> (\<forall>l \<in> set ls. \<forall>f \<in> set (converted_fields v l). conv f \<noteq> None)"
proof (induction ls arbitrary: st)
  case Nil show ?case by simp
next
  case (Cons l ls)
  show ?case
  proof (cases "load_line conv v l st")
    case (Inl e)
    then have "\<not> (\<exists>st'. load_line conv v l st = Inr st')" by simp
    with load_line_returns_iff[of conv v l st]
    have "\<not> (\<forall>f \<in> set (converted_fields v l). conv f \<noteq> None)" by blast
    with Inl show ?thesis by simp
  next
    case (Inr st1)
    then have "\<exists>st'. load_line conv v l st = Inr st'" by simp
    with load_line_returns_iff[of conv v l st]
    have "\<forall>f \<in> set (converted_fields v l). conv f \<noteq> None" by blast
    with Inr Cons.IH[of st1] show ?thesis by simp
  qed
qed

lemma split_sample:
  "split ''a 1.0 2.0 3.0 4.0\<newline>'' = [''a'', ''1.0'', ''2.0'', ''3.0'', ''4.0'']"
  "split (''x 1 2\<newline>'') = [''x'', ''1'', ''2'']"
  by code_simp+

text \<open>
  Claim C3. A line with fewer than five whitespace-delimited fields is skipped: dropping
  all such lines from the file changes neither the table nor the dimension (nor whether
  the call fails). The line \<open>a 1.0 2.0 3.0 4.0\<close>, after a line of three fields, gives the
  table \<open>{"a": [1.0, 2.0, 3.0, 4.0]}\<close> and the dimension 4, for every conversion of the
  four literals and for the sample conversion.
\<close>

theorem short_lines_skipped:
  "load_word_embeddings conv lines v
     = load_word_embeddings conv (filter (\<lambda>l. 5 \<le> length (split l)) lines) v
   \<and> (conv ''1.0'' = Some a \<and> conv ''2.0'' = Some b \<and> conv ''3.0'' = Some c
        \<and> conv ''4.0'' = Some d \<longrightarrow>
      load_word_embeddings conv
        [''x 1 2\<newline>'', ''a 1.0 2.0 3.0 4.0\<newline>''] None
        = Inr ([(''a'', [a, b, c, d])], Some 4))
   \<and> load_word_embeddings decimal
        [''x 1 2\<newline>'', ''a 1.0 2.0 3.0 4.0\<newline>''] None
        = Inr ([(''a'', [1, 2, 3, 4])], Some 4)"
proof (intro conjI impI)
  show "load_word_embeddings conv lines v
     = load_word_embeddings conv (filter (\<lambda>l. 5 \<le> length (split l)) lines) v"
    unfolding load_word_embeddings_def by (rule load_loop_filter)
next
  assume c: "conv ''1.0'' = Some a \<and> conv ''2.0'' = Some b \<and> conv ''3.0'' = Some c
        \<and> conv ''4.0'' = Some d"
  show "load_word_embeddings conv
        [''x 1 2\<newline>'', ''a 1.0 2.0 3.0 4.0\<newline>''] None
        = Inr ([(''a'', [a, b, c, d])], Some 4)"
    using c by (simp add: load_word_embeddings_def load_line_def split_sample setitem_def)
next
  show "load_word_embeddings decimal
        [''x 1 2\<newline>'', ''a 1.0 2.0 3.0 4.0\<newline>''] None
        = Inr ([(''a'', [1, 2, 3, 4])], Some 4)" by code_simp
qed

theorem short_lines_skipped_witness:
  "decimal ''1.0'' = Some 1 \<and> decimal ''2.0'' = Some 2 \<and> decimal ''3.0'' = Some 3
   \<and> decimal ''4.0'' = Some 4
   \<and> load_word_embeddings decimal
        [''x 1 2\<newline>'', ''a 1.0 2.0 3.0 4.0\<newline>''] None
        = Inr ([(''a'', [1, 2, 3, 4])], Some 4)"
proof -
  have c: "decimal ''1.0'' = Some 1 \<and> decimal ''2.0'' = Some 2 \<and> decimal ''3.0'' = Some 3
   \<and> decimal ''4.0'' = Some 4" by code_simp
  from short_lines_skipped[where conv = decimal and a = 1 and b = 2 and c = 3 and d = 4] c
  show ?thesis by blast
qed

text \<open>
  Claim C4. Whenever \<open>load_word_embeddings\<close> returns, and some line of the file has at
  least five fields and begins with a space, the returned table has an entry for the key
  \<open>" "\<close>, whatever the vocabulary filter is (absent, or any list of words).
\<close>

theorem whitespace_token_kept:
  assumes "load_word_embeddings conv lines v = Inr (tab, sz)"
    and "l \<in> set lines" and "5 \<le> length (split l)" and "hd l = CHR '' ''"
  shows "\<exists>vec. get tab '' '' = Some vec"
proof -
  from assms(1) have "load_loop conv v lines ([], None) = Inr (tab, sz)"
    by (simp add: load_word_embeddings_def)
  from load_loop_space[OF this assms(2,3,4)] show ?thesis by simp
qed

theorem whitespace_token_kept_witness:
  "load_word_embeddings decimal
      ['' 1 2 3 4 5\<newline>'', ''a 1 2 3 4 5 6\<newline>''] (Some [])
     = Inr ([('' '', [1, 2, 3, 4, 5])], None)
   \<and> 5 \<le> length (split ('' 1 2 3 4 5\<newline>''))
   \<and> hd ('' 1 2 3 4 5\<newline>'') = CHR '' ''
   \<and> (\<exists>vec. get [('' '', [1, 2, 3, 4, 5 :: real])] '' '' = Some vec)"
proof -
  have a: "load_word_embeddings decimal
      ['' 1 2 3 4 5\<newline>'', ''a 1 2 3 4 5 6\<newline>''] (Some [])
     = Inr ([('' '', [1, 2, 3, 4, 5])], None)" by code_simp
  have b: "5 \<le> length (split ('' 1 2 3 4 5\<newline>''))" by code_simp
  have c: "hd ('' 1 2 3 4 5\<newline>'') = CHR '' ''" by simp
  have m: "'' 1 2 3 4 5\<newline>''
       \<in> set ['' 1 2 3 4 5\<newline>'', ''a 1 2 3 4 5 6\<newline>'']" by simp
  from whitespace_token_kept[OF a m b c] a b c show ?thesis by blast
qed

text \<open>
  Claim C5, as the code has it. The returned dimension is the number of fields after the
  token on the first line that has at least five fields, does not begin with a space and
  passes the filter (\<open>None\<close> if there is no such line); a line that begins with a space is
  kept in the table but never sets the dimension. No later line is checked against it: the
  call returns exactly when every field that the code converts is a number (the fields
  after the token of an accepted line, all fields of a line that begins with a space),
  whatever the lengths of the lines, as on the file of a 4-vector followed by a 6-vector.
\<close>

theorem size_of_first_accepted_line:
  "(load_word_embeddings conv lines v = Inr (tab, sz) \<longrightarrow>
      sz = map_option (\<lambda>l. length (split l) - 1)
               (find (\<lambda>l. 5 \<le> length (split l) \<and> hd l \<noteq> CHR '' ''
                   \<and> (case v of None \<Rightarrow> True | Some ws \<Rightarrow> hd (split l) \<in> set ws)) lines))
   \<and> ((\<exists>tab sz. load_word_embeddings conv lines v = Inr (tab, sz))
        \<longleftrightarrow> (\<forall>l \<in> set lines. \<forall>f \<in> set (converted_fields v l). conv f \<noteq> None))
   \<and> load_word_embeddings decimal
        [''a 1 2 3 4\<newline>'', ''b 1 2 3 4 5 6\<newline>''] None
       = Inr ([(''a'', [1, 2, 3, 4]), (''b'', [1, 2, 3, 4, 5, 6])], Some 4)"
proof (intro conjI impI)
  assume "load_word_embeddings conv lines v = Inr (tab, sz)"
  then have "load_loop conv v lines ([], None) = Inr (tab, sz)"
    by (simp add: load_word_embeddings_def)
  from load_loop_size[OF this]
  show "sz = map_option (\<lambda>l. length (split l) - 1)
               (find (\<lambda>l. 5 \<le> length (split l) \<and> hd l \<noteq> CHR '' ''
                   \<and> (case v of None \<Rightarrow> True | Some ws \<Rightarrow> hd (split l) \<in> set ws)) lines)"
    by simp
next
  from load_loop_returns_iff[of conv v lines "([], None)"]
  show "(\<exists>tab sz. load_word_embeddings conv lines v = Inr (tab, sz))
        \<longleftrightarrow> (\<forall>l \<in> set lines. \<forall>f \<in> set (converted_fields v l). conv f \<noteq> None)"
    by (simp add: load_word_embeddings_def)
next
  show "load_word_embeddings decimal
        [''a 1 2 3 4\<newline>'', ''b 1 2 3 4 5 6\<newline>''] None
       = Inr ([(''a'', [1, 2, 3, 4]), (''b'', [1, 2, 3, 4, 5, 6])], Some 4)" by code_simp
qed

theorem size_of_first_accepted_line_witness:
  "load_word_embeddings decimal
        ['' 1 2 3 4 5\<newline>'', ''a 1 2 3 4 5 6\<newline>'', ''b 1 2 3 4\<newline>''] None
       = Inr ([('' '', [1, 2, 3, 4, 5]), (''a'', [1, 2, 3, 4, 5, 6]), (''b'', [1, 2, 3, 4])], Some 6)
   \<and> Some (6::nat) = map_option (\<lambda>l. length (split l) - 1)
               (find (\<lambda>l. 5 \<le> length (split l) \<and> hd l \<noteq> CHR '' ''
                   \<and> (case None :: string list option of None \<Rightarrow> True
                       | Some ws \<Rightarrow> hd (split l) \<in> set ws))
        ['' 1 2 3 4 5\<newline>'', ''a 1 2 3 4 5 6\<newline>'', ''b 1 2 3 4\<newline>''])
   \<and> decimal ''a'' = None \<and> decimal ''b'' = None
   \<and> list_all (\<lambda>l. list_all (\<lambda>f. decimal f \<noteq> None) (converted_fields None l))
        [''a 1 2 3 4\<newline>'', ''b 1 2 3 4 5 6\<newline>'']
   \<and> (\<exists>tab sz. load_word_embeddings decimal
        [''a 1 2 3 4\<newline>'', ''b 1 2 3 4 5 6\<newline>''] None = Inr (tab, sz))"
proof -
  have a: "load_word_embeddings decimal
        ['' 1 2 3 4 5\<newline>'', ''a 1 2 3 4 5 6\<newline>'', ''b 1 2 3 4\<newline>''] None
       = Inr ([('' '', [1, 2, 3, 4, 5]), (''a'', [1, 2, 3, 4, 5, 6]), (''b'', [1, 2, 3, 4])], Some 6)"
    by code_simp
  have n: "decimal ''a'' = None \<and> decimal ''b'' = None" by code_simp
  have h: "list_all (\<lambda>l. list_all (\<lambda>f. decimal f \<noteq> None) (converted_fields None l))
        [''a 1 2 3 4\<newline>'', ''b 1 2 3 4 5 6\<newline>'']" by code_simp
  then have h': "\<forall>l \<in> set [''a 1 2 3 4\<newline>'', ''b 1 2 3 4 5 6\<newline>''].
        \<forall>f \<in> set (converted_fields None l). decimal f \<noteq> None"
    by (simp only: list_all_iff)
  from size_of_first_accepted_line[THEN conjunct2, THEN conjunct1, THEN iffD2, OF h']
  have r: "\<exists>tab sz. load_word_embeddings decimal
        [''a 1 2 3 4\<newline>'', ''b 1 2 3 4 5 6\<newline>''] None = Inr (tab, sz)" .
  from size_of_first_accepted_line[THEN conjunct1, rule_format, OF a] a n h r
  show ?thesis by blast
qed

text \<open>
  Claim C5 as the specification states it fails on a file whose first retained line
  begins with a space: that line has five fields and is kept under the key \<open>" "\<close>, yet the
  dimension is 6, from the second line; and a file with only such a line has no dimension.
\<close>

theorem first_retained_line_counterexample:
  "load_word_embeddings decimal
      ['' 1 2 3 4 5\<newline>'', ''a 1 2 3 4 5 6\<newline>''] None
     = Inr ([('' '', [1, 2, 3, 4, 5]), (''a'', [1, 2, 3, 4, 5, 6])], Some 6)
   \<and> length (split ('' 1 2 3 4 5\<newline>'')) = 5
   \<and> load_word_embeddings decimal ['' 1 2 3 4 5\<newline>''] None
     = Inr ([('' '', [1, 2, 3, 4, 5])], None)"
  by code_simp

subsection \<open>The loop of \<open>load_embedding_file\<close>\<close>

lemma file_line_Inr:
  assumes "file_line conv l d = Inr d'"
  shows "split l \<noteq> []"
    and "\<exists>vec. asarray conv (tl (split l)) = Inr vec \<and> d' = setitem d (hd (split l)) vec"
  using assms by (auto simp: file_line_def split: list.splits sum.splits)

lemma file_loop_Cons:
  assumes "file_loop conv (l # ls) d = Inr d'"
  obtains d1 where "file_line conv l d = Inr d1" "file_loop conv ls d1 = Inr d'"
  using assms by (auto split: sum.splits)

lemma file_loop_other:
  "file_loop conv ls d = Inr d' \<Longrightarrow> \<forall>l \<in> set ls. hd (split l) \<noteq> k \<Longrightarrow> get d' k = get d k"
proof (induction ls arbitrary: d)
  case Nil then show ?case by simp
next
  case (Cons l ls)
  from Cons.prems(1) obtain d1 where s: "file_line conv l d = Inr d1"
    "file_loop conv ls d1 = Inr d'" by (rule file_loop_Cons)
  from file_line_Inr(2)[OF s(1)] Cons.prems(2) have "get d1 k = get d k"
    by (auto simp: get_setitem)
  moreover from Cons.prems(2) have "\<forall>l \<in> set ls. hd (split l) \<noteq> k" by simp
  from Cons.IH[OF s(2) this] have "get d' k = get d1 k" .
  ultimately show ?case by simp
qed

lemma file_loop_keys:
  "file_loop conv ls d = Inr d' \<Longrightarrow>
   fst ` set d' = fst ` set d \<union> (\<lambda>l. hd (split l)) ` set ls"
proof (induction ls arbitrary: d)
  case Nil then show ?case by simp
next
  case (Cons l ls)
  from Cons.prems(1) obtain d1 where s: "file_line conv l d = Inr d1"
    "file_loop conv ls d1 = Inr d'" by (rule file_loop_Cons)
  from file_line_Inr(2)[OF s(1)] obtain vec where "d1 = setitem d (hd (split l)) vec" by blast
  then have "fst ` set d1 = insert (hd (split l)) (fst ` set d)"
    by (simp only: keys_setitem)
  with Cons.IH[OF s(2)] show ?case by auto
qed

lemma get_None_iff: "get d k = None \<longleftrightarrow> k \<notin> fst ` set d"
  by (simp add: get_def map_of_eq_None_iff)

lemma file_loop_line:
  assumes "file_loop conv (pre @ l # post) d = Inr d'"
  shows "split l \<noteq> [] \<and> get d' (hd (split l)) \<noteq> None \<and>
         ((\<forall>l' \<in> set post. hd (split l') \<noteq> hd (split l)) \<longrightarrow>
            asarray conv (tl (split l)) = Inr (the (get d' (hd (split l)))))"
  using assms
proof (induction pre arbitrary: d)
  case Nil
  then have "file_loop conv (l # post) d = Inr d'" by simp
  then obtain d1 where s: "file_line conv l d = Inr d1" "file_loop conv post d1 = Inr d'"
    by (rule file_loop_Cons)
  from file_line_Inr[OF s(1)] obtain vec where v: "split l \<noteq> []"
    "asarray conv (tl (split l)) = Inr vec" "d1 = setitem d (hd (split l)) vec" by blast
  have k: "hd (split l) \<in> fst ` set d'"
    using file_loop_keys[OF s(2)] v(3) by (simp add: keys_setitem)
  have "asarray conv (tl (split l)) = Inr (the (get d' (hd (split l))))"
    if "\<forall>l' \<in> set post. hd (split l') \<noteq> hd (split l)"
  proof -
    from file_loop_other[OF s(2) that] v(3) have "get d' (hd (split l)) = Some vec"
      by (simp add: get_setitem)
    with v(2) show ?thesis by simp
  qed
  with v(1) k show ?case by (simp add: get_None_iff)
next
  case (Cons a pre)
  then have "file_loop conv (a # (pre @ l # post)) d = Inr d'" by simp
  then obtain d1 where s: "file_line conv a d = Inr d1"
    "file_loop conv (pre @ l # post) d1 = Inr d'" by (rule file_loop_Cons)
  from Cons.IH[OF s(2)] show ?case .
qed

lemma file_line_total:
  "split l \<noteq> [] \<Longrightarrow> \<forall>f \<in> set (tl (split l)). conv f \<noteq> None \<Longrightarrow> \<exists>d'. file_line conv l d = Inr d'"
proof -
  assume a: "split l \<noteq> []" and b: "\<forall>f \<in> set (tl (split l)). conv f \<noteq> None"
  from asarray_total[OF b] obtain vec where "asarray conv (tl (split l)) = Inr vec" by blast
  with a show ?thesis by (cases "split l") (simp_all add: file_line_def)
qed

lemma file_loop_total:
  "\<forall>l \<in> set ls. split l \<noteq> [] \<and> (\<forall>f \<in> set (tl (split l)). conv f \<noteq> None)
   \<Longrightarrow> \<exists>d'. file_loop conv ls d = Inr d'"
proof (induction ls arbitrary: d)
  case Nil show ?case by simp
next
  case (Cons l ls)
  from Cons.prems have "split l \<noteq> []" "\<forall>f \<in> set (tl (split l)). conv f \<noteq> None" by simp_all
  from file_line_total[OF this] obtain d1 where s: "file_line conv l d = Inr d1" by blast
  from Cons.prems have "\<forall>l \<in> set ls. split l \<noteq> [] \<and> (\<forall>f \<in> set (tl (split l)). conv f \<noteq> None)"
    by simp
  from Cons.IH[OF this] obtain d' where "file_loop conv ls d1 = Inr d'" by blast
  with s show ?case by simp
qed

text \<open>
  Claim C9. \<open>load_embedding_file\<close> has no filter, no minimum-field rule and no special case
  for a leading space. Whenever it returns a dictionary, the keys of the dictionary are
  exactly the first fields of the lines of the file; every line has a first field, which
  is a key; and the vector under that key is the conversion of the remaining fields of the
  line, for the last line that has this first field (a later line with the same token
  overwrites an earlier one). It returns whenever every line has a field and the fields
  after the first convert. On the sample file a line that begins with a space and has
  three fields gives the key \<open>1\<close>, and a line of one field gives an empty vector.
\<close>

theorem every_line_is_an_entry:
  "(load_embedding_file conv lines = Inr d \<longrightarrow>
      fst ` set d = (\<lambda>l. hd (split l)) ` set lines
      \<and> (\<forall>pre l post. lines = pre @ l # post \<longrightarrow>
           split l \<noteq> [] \<and> get d (hd (split l)) \<noteq> None
           \<and> ((\<forall>l' \<in> set post. hd (split l') \<noteq> hd (split l)) \<longrightarrow>
                asarray conv (tl (split l)) = Inr (the (get d (hd (split l)))))))
   \<and> ((\<forall>l \<in> set lines. split l \<noteq> [] \<and> (\<forall>f \<in> set (tl (split l)). conv f \<noteq> None)) \<longrightarrow>
        (\<exists>d. load_embedding_file conv lines = Inr d))
   \<and> load_embedding_file decimal ['' 1 2\<newline>'', ''b 2.5\<newline>'', ''c\<newline>'']
        = Inr [(''1'', [2]), (''b'', [5 / 2]), (''c'', [])]"
proof (intro conjI impI allI)
  assume a: "load_embedding_file conv lines = Inr d"
  then show "fst ` set d = (\<lambda>l. hd (split l)) ` set lines"
    using file_loop_keys[of conv lines "[]" d] by (simp add: load_embedding_file_def)
next
  fix pre l post
  assume a: "load_embedding_file conv lines = Inr d" and b: "lines = pre @ l # post"
  then have f: "file_loop conv (pre @ l # post) [] = Inr d"
    by (simp add: load_embedding_file_def)
  from file_loop_line[OF f] show "split l \<noteq> []" by simp
  from file_loop_line[OF f] show "get d (hd (split l)) \<noteq> None" by simp
  assume "\<forall>l' \<in> set post. hd (split l') \<noteq> hd (split l)"
  with file_loop_line[OF f]
  show "asarray conv (tl (split l)) = Inr (the (get d (hd (split l))))" by simp
next
  assume "\<forall>l \<in> set lines. split l \<noteq> [] \<and> (\<forall>f \<in> set (tl (split l)). conv f \<noteq> None)"
  from file_loop_total[OF this, of "[]"] show "\<exists>d. load_embedding_file conv lines = Inr d"
    by (simp add: load_embedding_file_def)
next
  show "load_embedding_file decimal ['' 1 2\<newline>'', ''b 2.5\<newline>'', ''c\<newline>'']
        = Inr [(''1'', [2]), (''b'', [5 / 2]), (''c'', [])]" by code_simp
qed

theorem every_line_is_an_entry_witness:
  "load_embedding_file decimal [''a 1\<newline>'', ''b 2.5\<newline>'', ''a 3 4\<newline>'']
     = Inr [(''a'', [3, 4]), (''b'', [5 / 2])]
   \<and> fst ` set [(''a'', [3, 4 :: real]), (''b'', [5 / 2])]
       = (\<lambda>l. hd (split l)) ` set [''a 1\<newline>'', ''b 2.5\<newline>'', ''a 3 4\<newline>'']
   \<and> split ''b 2.5\<newline>'' \<noteq> []
   \<and> get [(''a'', [3, 4 :: real]), (''b'', [5 / 2])] (hd (split ''b 2.5\<newline>'')) \<noteq> None
   \<and> asarray decimal (tl (split ''b 2.5\<newline>''))
       = Inr (the (get [(''a'', [3, 4 :: real]), (''b'', [5 / 2])] (hd (split ''b 2.5\<newline>''))))"
proof -
  let ?d = "[(''a'', [3, 4 :: real]), (''b'', [5 / 2])]"
  have a: "load_embedding_file decimal [''a 1\<newline>'', ''b 2.5\<newline>'', ''a 3 4\<newline>''] = Inr ?d"
    by code_simp
  have b: "[''a 1\<newline>'', ''b 2.5\<newline>'', ''a 3 4\<newline>''] = [''a 1\<newline>''] @ ''b 2.5\<newline>'' # [''a 3 4\<newline>'']"
    by simp
  have c: "\<forall>l' \<in> set [''a 3 4\<newline>'']. hd (split l') \<noteq> hd (split ''b 2.5\<newline>'')"
    by code_simp
  from every_line_is_an_entry[THEN conjunct1, rule_format, OF a]
  have k: "fst ` set ?d = (\<lambda>l. hd (split l)) ` set [''a 1\<newline>'', ''b 2.5\<newline>'', ''a 3 4\<newline>'']"
    and r: "\<And>pre l post. [''a 1\<newline>'', ''b 2.5\<newline>'', ''a 3 4\<newline>''] = pre @ l # post \<Longrightarrow>
           split l \<noteq> [] \<and> get ?d (hd (split l)) \<noteq> None
           \<and> ((\<forall>l' \<in> set post. hd (split l') \<noteq> hd (split l)) \<longrightarrow>
                asarray decimal (tl (split l)) = Inr (the (get ?d (hd (split l)))))"
    by blast+
  from r[OF b] c a k show ?thesis by blast
qed

subsection \<open>The loops of \<open>fill_embedding_mat\<close>\<close>

lemma set_cell_Inr:
  assumes "set_cell t i j v = Inr t'"
  shows "i < dim0 t" and "j < dim1 t"
    and "dim0 t' = dim0 t \<and> dim1 t' = dim1 t \<and> dim2 t' = dim2 t"
    and "\<exists>r. broadcast (dim2 t) v = Inr r
           \<and> cells3 t' = (cells3 t)[i := (cells3 t ! i)[j := r]]"
  using assms by (auto simp: set_cell_def split: if_splits sum.splits)

lemma fill_sentence_skip:
  assumes "fill_sentence sl el i j (w # sen) t = Inr t'"
    and "\<not> 0 < w \<or> get el (lower (str (get sl w))) = None"
  shows "fill_sentence sl el i (Suc j) sen t = Inr t'"
  using assms by (auto split: if_splits option.splits)

lemma fill_sentence_write:
  assumes "fill_sentence sl el i j (w # sen) t = Inr t'"
    and "0 < w" and "get el (lower (str (get sl w))) = Some v"
  obtains t1 where "set_cell t i j v = Inr t1" "fill_sentence sl el i (Suc j) sen t1 = Inr t'"
  using assms by (auto split: sum.splits)

lemma fill_sentence_inv:
  assumes "fill_sentence sl el i j sen t = Inr t'" and "i < length (cells3 t)"
  shows "dim0 t' = dim0 t \<and> dim1 t' = dim1 t \<and> dim2 t' = dim2 t
       \<and> length (cells3 t') = length (cells3 t)
       \<and> length (cells3 t' ! i) = length (cells3 t ! i)
       \<and> (\<forall>i'. i' \<noteq> i \<longrightarrow> cells3 t' ! i' = cells3 t ! i')
       \<and> (\<forall>k. k < j \<or> j + length sen \<le> k \<longrightarrow> cells3 t' ! i ! k = cells3 t ! i ! k)
       \<and> (\<forall>k < length sen. j + k < length (cells3 t ! i) \<longrightarrow>
            cell_written sl el (dim2 t) (sen ! k) (cells3 t ! i ! (j + k)) (cells3 t' ! i ! (j + k)))"
  using assms
proof (induction sen arbitrary: j t)
  case Nil
  then show ?case by simp
next
  case (Cons w sen)
  show ?case
  proof (cases "0 < w \<and> get el (lower (str (get sl w))) \<noteq> None")
    case False
    then have nw: "\<not> 0 < w \<or> get el (lower (str (get sl w))) = None" by blast
    from fill_sentence_skip[OF Cons.prems(1) nw]
    have f: "fill_sentence sl el i (Suc j) sen t = Inr t'" .
    note ih = Cons.IH[OF f Cons.prems(2)]
    have same: "cells3 t' ! i ! j = cells3 t ! i ! j" using ih by simp
    have w0: "cell_written sl el (dim2 t) w (cells3 t ! i ! j) (cells3 t' ! i ! j)"
      using nw same by (auto simp: cell_written_def)
    have wr: "cell_written sl el (dim2 t) ((w # sen) ! k) (cells3 t ! i ! (j + k))
                (cells3 t' ! i ! (j + k))"
      if "k < length (w # sen)" "j + k < length (cells3 t ! i)" for k
    proof (cases k)
      case 0 with w0 show ?thesis by simp
    next
      case (Suc k')
      with that ih show ?thesis by simp
    qed
    from ih wr show ?thesis by simp
  next
    case True
    then obtain v where v: "0 < w" "get el (lower (str (get sl w))) = Some v" by auto
    from fill_sentence_write[OF Cons.prems(1) v] obtain t1 where
      s: "set_cell t i j v = Inr t1" and f: "fill_sentence sl el i (Suc j) sen t1 = Inr t'"
      by blast
    from set_cell_Inr[OF s] obtain r where
      d: "dim0 t1 = dim0 t" "dim1 t1 = dim1 t" "dim2 t1 = dim2 t"
      and b: "broadcast (dim2 t) v = Inr r"
      and c: "cells3 t1 = (cells3 t)[i := (cells3 t ! i)[j := r]]" by blast
    have l1: "i < length (cells3 t1)" using c Cons.prems(2) by simp
    note ih = Cons.IH[OF f l1]
    have row1: "cells3 t1 ! i = (cells3 t ! i)[j := r]" using c Cons.prems(2) by simp
    have oth1: "cells3 t1 ! i' = cells3 t ! i'" if "i' \<noteq> i" for i' using c that by simp
    have len1: "length (cells3 t1) = length (cells3 t)" using c by simp
    have w0: "cell_written sl el (dim2 t) w (cells3 t ! i ! j) (cells3 t' ! i ! j)"
      if "j < length (cells3 t ! i)"
    proof -
      have "cells3 t' ! i ! j = cells3 t1 ! i ! j" using ih by simp
      also have "\<dots> = r" using row1 that by simp
      finally show ?thesis using v b by (simp add: cell_written_def)
    qed
    have wr: "cell_written sl el (dim2 t) ((w # sen) ! k) (cells3 t ! i ! (j + k))
                (cells3 t' ! i ! (j + k))"
      if "k < length (w # sen)" "j + k < length (cells3 t ! i)" for k
    proof (cases k)
      case 0 with w0 that show ?thesis by simp
    next
      case (Suc k')
      with that have "k' < length sen" "Suc j + k' < length (cells3 t1 ! i)"
        using row1 by simp_all
      with ih have "cell_written sl el (dim2 t1) (sen ! k') (cells3 t1 ! i ! (Suc j + k'))
                (cells3 t' ! i ! (Suc j + k'))" by blast
      moreover have "cells3 t1 ! i ! (Suc j + k') = cells3 t ! i ! (Suc j + k')"
        using row1 by simp
      ultimately show ?thesis using Suc d by simp
    qed
    have un: "cells3 t' ! i ! k = cells3 t ! i ! k" if "k < j \<or> j + length (w # sen) \<le> k" for k
    proof -
      from that have "k < Suc j \<or> Suc j + length sen \<le> k" by auto
      with ih have "cells3 t' ! i ! k = cells3 t1 ! i ! k" by blast
      moreover from that have "k \<noteq> j" by auto
      ultimately show ?thesis using row1 by simp
    qed
    have "length (cells3 t' ! i) = length (cells3 t ! i)" using ih row1 by simp
    moreover have "\<forall>i'. i' \<noteq> i \<longrightarrow> cells3 t' ! i' = cells3 t ! i'" using ih oth1 by simp
    ultimately show ?thesis using ih d len1 wr un by simp
  qed
qed

lemma fill_sentences_Cons:
  assumes "fill_sentences sl el i (sen # rest) t = Inr t'"
  obtains t1 where "fill_sentence sl el i 0 sen t = Inr t1"
    "fill_sentences sl el (Suc i) rest t1 = Inr t'"
  using assms by (auto split: sum.splits)

lemma fill_sentences_inv:
  assumes "fill_sentences sl el i sens t = Inr t'" and "i + length sens \<le> length (cells3 t)"
  shows "dim0 t' = dim0 t \<and> dim1 t' = dim1 t \<and> dim2 t' = dim2 t
       \<and> length (cells3 t') = length (cells3 t)
       \<and> (\<forall>i'. i' < i \<or> i + length sens \<le> i' \<longrightarrow> cells3 t' ! i' = cells3 t ! i')
       \<and> (\<forall>r < length sens.
             length (cells3 t' ! (i + r)) = length (cells3 t ! (i + r))
           \<and> (\<forall>k. length (sens ! r) \<le> k \<longrightarrow> cells3 t' ! (i + r) ! k = cells3 t ! (i + r) ! k)
           \<and> (\<forall>k < length (sens ! r). k < length (cells3 t ! (i + r)) \<longrightarrow>
                cell_written sl el (dim2 t) (sens ! r ! k)
                  (cells3 t ! (i + r) ! k) (cells3 t' ! (i + r) ! k)))"
  using assms
proof (induction sens arbitrary: i t)
  case Nil
  then show ?case by simp
next
  case (Cons sen rest)
  from Cons.prems(1) obtain t1 where
    s: "fill_sentence sl el i 0 sen t = Inr t1"
    and f: "fill_sentences sl el (Suc i) rest t1 = Inr t'" by (rule fill_sentences_Cons)
  have li: "i < length (cells3 t)" using Cons.prems(2) by simp
  note a = fill_sentence_inv[OF s li]
  have l1: "Suc i + length rest \<le> length (cells3 t1)" using a Cons.prems(2) by simp
  note ih = Cons.IH[OF f l1]
  have rowi: "cells3 t' ! i = cells3 t1 ! i" using ih by simp
  have oth: "cells3 t1 ! i' = cells3 t ! i'" if "i' \<noteq> i" for i' using a that by simp
  have R: "length (cells3 t' ! (i + r)) = length (cells3 t ! (i + r))
           \<and> (\<forall>k. length ((sen # rest) ! r) \<le> k \<longrightarrow>
                  cells3 t' ! (i + r) ! k = cells3 t ! (i + r) ! k)
           \<and> (\<forall>k < length ((sen # rest) ! r). k < length (cells3 t ! (i + r)) \<longrightarrow>
                cell_written sl el (dim2 t) ((sen # rest) ! r ! k)
                  (cells3 t ! (i + r) ! k) (cells3 t' ! (i + r) ! k))"
    if "r < length (sen # rest)" for r
  proof (cases r)
    case 0
    with a rowi show ?thesis by simp
  next
    case (Suc r')
    with that have r': "r' < length rest" by simp
    have e: "cells3 t1 ! (Suc i + r') = cells3 t ! (Suc i + r')" using oth by simp
    from ih r' have "length (cells3 t' ! (Suc i + r')) = length (cells3 t1 ! (Suc i + r'))
           \<and> (\<forall>k. length (rest ! r') \<le> k \<longrightarrow>
                  cells3 t' ! (Suc i + r') ! k = cells3 t1 ! (Suc i + r') ! k)
           \<and> (\<forall>k < length (rest ! r'). k < length (cells3 t1 ! (Suc i + r')) \<longrightarrow>
                cell_written sl el (dim2 t1) (rest ! r' ! k)
                  (cells3 t1 ! (Suc i + r') ! k) (cells3 t' ! (Suc i + r') ! k))" by blast
    with e a Suc show ?thesis by simp
  qed
  have U: "cells3 t' ! i' = cells3 t ! i'" if "i' < i \<or> i + length (sen # rest) \<le> i'" for i'
  proof -
    from that have "i' < Suc i \<or> Suc i + length rest \<le> i'" by auto
    with ih have "cells3 t' ! i' = cells3 t1 ! i'" by blast
    moreover from that have "i' \<noteq> i" by auto
    ultimately show ?thesis using oth by simp
  qed
  from ih a R U show ?case by simp
qed

lemma fill_sentence_total:
  assumes "i < dim0 t" and "j + length sen \<le> dim1 t"
    and "\<forall>k v. get el k = Some v \<longrightarrow> length v = dim2 t"
  shows "\<exists>t'. fill_sentence sl el i j sen t = Inr t'"
  using assms
proof (induction sen arbitrary: j t)
  case Nil show ?case by simp
next
  case (Cons w sen)
  show ?case
  proof (cases "0 < w \<and> get el (lower (str (get sl w))) \<noteq> None")
    case False
    from Cons.prems have "Suc j + length sen \<le> dim1 t" by simp
    from Cons.IH[OF Cons.prems(1) this Cons.prems(3)] False show ?thesis by auto
  next
    case True
    then obtain v where v: "0 < w" "get el (lower (str (get sl w))) = Some v" by auto
    with Cons.prems(3) have "length v = dim2 t" by blast
    then have b: "broadcast (dim2 t) v = Inr v" by (rule broadcast_same)
    let ?t1 = "t\<lparr>cells3 := (cells3 t)[i := (cells3 t ! i)[j := v]]\<rparr>"
    have s: "set_cell t i j v = Inr ?t1" using Cons.prems(1,2) b by (simp add: set_cell_def)
    have "\<exists>t'. fill_sentence sl el i (Suc j) sen ?t1 = Inr t'"
      using Cons.prems by (intro Cons.IH) simp_all
    with v s show ?thesis by simp
  qed
qed

lemma fill_sentences_total:
  assumes "i + length sens \<le> dim0 t" and "\<forall>sen \<in> set sens. length sen \<le> dim1 t"
    and "\<forall>k v. get el k = Some v \<longrightarrow> length v = dim2 t"
    and "length (cells3 t) = dim0 t"
  shows "\<exists>t'. fill_sentences sl el i sens t = Inr t'"
  using assms
proof (induction sens arbitrary: i t)
  case Nil show ?case by simp
next
  case (Cons sen rest)
  have "i < dim0 t" "0 + length sen \<le> dim1 t" using Cons.prems by simp_all
  from fill_sentence_total[OF this Cons.prems(3)] obtain t1 where
    s: "fill_sentence sl el i 0 sen t = Inr t1" by blast
  have "i < length (cells3 t)" using Cons.prems by simp
  from fill_sentence_inv[OF s this] have d: "dim0 t1 = dim0 t" "dim1 t1 = dim1 t"
    "dim2 t1 = dim2 t" "length (cells3 t1) = length (cells3 t)" by simp_all
  have "\<exists>t'. fill_sentences sl el (Suc i) rest t1 = Inr t'"
    using Cons.prems d by (intro Cons.IH) simp_all
  with s show ?case by simp
qed

lemma zeros3_Inr:
  "zeros3 a b c = Inr t \<Longrightarrow> int (dim0 t) = a \<and> int (dim1 t) = b \<and> int (dim2 t) = c
     \<and> cells3 t = replicate (dim0 t) (replicate (dim1 t) (replicate (dim2 t) 0))"
  by (auto simp: zeros3_def split: if_splits)

lemma fill_embedding_mat_Inr:
  assumes r: "fill_embedding_mat src sl el es = Inr T" and wf: "wf_matrix src"
  shows "dim0 T = nrows src \<and> dim1 T = ncols src \<and> int (dim2 T) = es
       \<and> length (cells3 T) = nrows src
       \<and> (\<forall>i < nrows src. length (cells3 T ! i) = ncols src
           \<and> (\<forall>j < ncols src. cell_written sl el (dim2 T) (cells src ! i ! j)
                  (replicate (dim2 T) 0) (cells3 T ! i ! j)))"
proof -
  from r obtain t0 where z: "zeros3 (int (nrows src)) (int (ncols src)) es = Inr t0"
    and f: "fill_sentences sl el 0 (cells src) t0 = Inr T"
    by (auto simp: fill_embedding_mat_def split: sum.splits)
  from zeros3_Inr[OF z] have d0: "dim0 t0 = nrows src" "dim1 t0 = ncols src"
    "int (dim2 t0) = es"
    and c0: "cells3 t0 = replicate (dim0 t0) (replicate (dim1 t0) (replicate (dim2 t0) 0))"
    by auto
  from wf have w: "length (cells src) = nrows src"
    "\<And>i. i < nrows src \<Longrightarrow> length (cells src ! i) = ncols src"
    by (auto simp: wf_matrix_def list_all_length)
  have l: "0 + length (cells src) \<le> length (cells3 t0)" using c0 d0 w by simp
  note inv = fill_sentences_inv[OF f l]
  have C: "length (cells3 T ! i) = ncols src
           \<and> (\<forall>j < ncols src. cell_written sl el (dim2 T) (cells src ! i ! j)
                  (replicate (dim2 T) 0) (cells3 T ! i ! j))" if i: "i < nrows src" for i
  proof -
    from i w have ir: "i < length (cells src)" by simp
    from c0 d0 i have row0: "cells3 t0 ! i = replicate (ncols src) (replicate (dim2 t0) 0)"
      by simp
    from inv ir have
      1: "length (cells3 T ! (0 + i)) = length (cells3 t0 ! (0 + i))"
      and 2: "\<forall>k < length (cells src ! i). k < length (cells3 t0 ! (0 + i)) \<longrightarrow>
                cell_written sl el (dim2 t0) (cells src ! i ! k)
                  (cells3 t0 ! (0 + i) ! k) (cells3 T ! (0 + i) ! k)" by blast+
    from inv have d2: "dim2 T = dim2 t0" by simp
    from 1 row0 have "length (cells3 T ! i) = ncols src" by simp
    moreover have "cell_written sl el (dim2 T) (cells src ! i ! j)
                  (replicate (dim2 T) 0) (cells3 T ! i ! j)" if "j < ncols src" for j
      using 2 that w(2)[OF i] row0 d2 by simp
    ultimately show ?thesis by blast
  qed
  from inv d0 c0 C show ?thesis by simp
qed

lemma fill_embedding_mat_total:
  assumes wf: "wf_matrix src" and nn: "0 \<le> es"
    and len: "\<forall>k v. get el k = Some v \<longrightarrow> int (length v) = es"
  shows "\<exists>T. fill_embedding_mat src sl el es = Inr T"
proof -
  let ?t0 = "\<lparr>dim0 = nrows src, dim1 = ncols src, dim2 = nat es,
      cells3 = replicate (nrows src) (replicate (ncols src) (replicate (nat es) (0::'a)))\<rparr>"
  have z: "zeros3 (int (nrows src)) (int (ncols src)) es = Inr ?t0"
    using nn by (simp add: zeros3_def)
  have "\<exists>T. fill_sentences sl el 0 (cells src) ?t0 = Inr T"
  proof (rule fill_sentences_total)
    show "0 + length (cells src) \<le> dim0 ?t0" using wf by (simp add: wf_matrix_def)
    show "\<forall>sen \<in> set (cells src). length sen \<le> dim1 ?t0"
      using wf by (simp add: wf_matrix_def list_all_iff)
    show "\<forall>k v. get el k = Some v \<longrightarrow> length v = dim2 ?t0"
    proof (intro allI impI)
      fix k v assume "get el k = Some v"
      with len have "int (length v) = es" by blast
      then show "length v = dim2 ?t0" by auto
    qed
    show "length (cells3 ?t0) = dim0 ?t0" by simp
  qed
  with z show ?thesis by (simp add: fill_embedding_mat_def)
qed

lemma lower_None: "lower (str None) = ''none''"
  by code_simp

text \<open>
  Claim C7. For a well-formed source matrix, a non-negative \<open>emb_size\<close> and an embedding
  lexicon whose vectors have length \<open>emb_size\<close> (the meaning the docstring gives to
  \<open>emb_size\<close>), \<open>fill_embedding_mat\<close> returns a tensor of shape (sentences, positions,
  \<open>emb_size\<close>) in which a cell is all zeros when its id is not positive, all zeros when
  its positive id resolves through the source lexicon to a token whose lowercased form is
  not in the embedding lexicon, and equal to the vector of the lowercased token when it is.
\<close>

theorem filled_tensor:
  assumes wf: "wf_matrix src_mat" and nn: "0 \<le> emb_size"
    and len: "\<forall>k v. get emb_lex k = Some v \<longrightarrow> int (length v) = emb_size"
  shows "\<exists>T. fill_embedding_mat src_mat src_lex emb_lex emb_size = Inr T
      \<and> dim0 T = nrows src_mat \<and> dim1 T = ncols src_mat \<and> int (dim2 T) = emb_size
      \<and> length (cells3 T) = nrows src_mat
      \<and> (\<forall>i < nrows src_mat. length (cells3 T ! i) = ncols src_mat \<and>
          (\<forall>j < ncols src_mat.
             (cells src_mat ! i ! j \<le> 0 \<longrightarrow> cells3 T ! i ! j = replicate (dim2 T) 0)
           \<and> (\<forall>tok. 0 < cells src_mat ! i ! j
                    \<and> get src_lex (cells src_mat ! i ! j) = Some tok \<longrightarrow>
                 (case get emb_lex (lower tok) of
                    None \<Rightarrow> cells3 T ! i ! j = replicate (dim2 T) 0
                  | Some v \<Rightarrow> cells3 T ! i ! j = v))))"
proof -
  from fill_embedding_mat_total[OF wf nn len] obtain T where
    r: "fill_embedding_mat src_mat src_lex emb_lex emb_size = Inr T" by blast
  note sh = fill_embedding_mat_Inr[OF r wf]
  have cellw: "cell_written src_lex emb_lex (dim2 T) (cells src_mat ! i ! j)
                  (replicate (dim2 T) 0) (cells3 T ! i ! j)"
    if "i < nrows src_mat" "j < ncols src_mat" for i j using sh that by blast
  have C: "(cells src_mat ! i ! j \<le> 0 \<longrightarrow> cells3 T ! i ! j = replicate (dim2 T) 0)
           \<and> (\<forall>tok. 0 < cells src_mat ! i ! j
                    \<and> get src_lex (cells src_mat ! i ! j) = Some tok \<longrightarrow>
                 (case get emb_lex (lower tok) of
                    None \<Rightarrow> cells3 T ! i ! j = replicate (dim2 T) 0
                  | Some v \<Rightarrow> cells3 T ! i ! j = v))"
    if ij: "i < nrows src_mat" "j < ncols src_mat" for i j
  proof (intro conjI impI allI)
    assume "cells src_mat ! i ! j \<le> 0"
    with cellw[OF ij] show "cells3 T ! i ! j = replicate (dim2 T) 0"
      by (simp add: cell_written_def)
  next
    fix tok
    assume a: "0 < cells src_mat ! i ! j \<and> get src_lex (cells src_mat ! i ! j) = Some tok"
    show "case get emb_lex (lower tok) of
                    None \<Rightarrow> cells3 T ! i ! j = replicate (dim2 T) 0
                  | Some v \<Rightarrow> cells3 T ! i ! j = v"
    proof (cases "get emb_lex (lower tok)")
      case None
      with cellw[OF ij] a show ?thesis by (simp add: cell_written_def str_def)
    next
      case (Some v)
      with len have "int (length v) = emb_size" by blast
      with sh have "length v = dim2 T" by simp
      then have "broadcast (dim2 T) v = Inr v" by (rule broadcast_same)
      with cellw[OF ij] a Some show ?thesis by (simp add: cell_written_def str_def)
    qed
  qed
  from r sh C show ?thesis by blast
qed

theorem filled_tensor_witness:
  "wf_matrix \<lparr>nrows = 1, ncols = 3, cells = [[0, 1, 2 :: int]]\<rparr> \<and> (0::int) \<le> 2
   \<and> fill_embedding_mat \<lparr>nrows = 1, ncols = 3, cells = [[0, 1, 2]]\<rparr>
        [(1, ''Cat''), (2, ''Dog'')] [(''cat'', [1, 2 :: real])] 2
      = Inr \<lparr>dim0 = 1, dim1 = 3, dim2 = 2, cells3 = [[[0, 0], [1, 2], [0, 0]]]\<rparr>
   \<and> (\<exists>T. fill_embedding_mat \<lparr>nrows = 1, ncols = 3, cells = [[0, 1, 2]]\<rparr>
        [(1, ''Cat''), (2, ''Dog'')] [(''cat'', [1, 2 :: real])] 2 = Inr T
        \<and> dim0 T = 1 \<and> dim1 T = 3 \<and> int (dim2 T) = 2)"
proof -
  let ?src = "\<lparr>nrows = 1, ncols = 3, cells = [[0, 1, 2 :: int]]\<rparr>"
  let ?el = "[(''cat'', [1, 2 :: real])]"
  have wf: "wf_matrix ?src" by (simp add: wf_matrix_def)
  have nn: "(0::int) \<le> 2" by simp
  have len: "\<forall>k v. get ?el k = Some v \<longrightarrow> int (length v) = 2"
    by (auto simp: get_def split: if_splits)
  have e: "fill_embedding_mat ?src [(1, ''Cat''), (2, ''Dog'')] ?el 2
      = Inr \<lparr>dim0 = 1, dim1 = 3, dim2 = 2, cells3 = [[[0, 0], [1, 2], [0, 0]]]\<rparr>"
    by code_simp
  from filled_tensor[OF wf nn len, of "[(1, ''Cat''), (2, ''Dog'')]"]
  have "\<exists>T. fill_embedding_mat ?src [(1, ''Cat''), (2, ''Dog'')] ?el 2 = Inr T
        \<and> dim0 T = 1 \<and> dim1 T = 3 \<and> int (dim2 T) = 2" by auto
  with wf nn e show ?thesis by blast
qed

text \<open>
  Claim C10. When \<open>fill_embedding_mat\<close> returns and a cell has a positive id that is not a
  key of the source lexicon, the token looked up is \<open>str(None).lower()\<close>, the string
  \<open>none\<close>: the cell stays all zeros unless the embedding lexicon has the key \<open>none\<close>, and
  then the cell is that vector, as numpy assigns it to a cell of length \<open>emb_size\<close> (the
  vector itself when its length is \<open>emb_size\<close>).
\<close>

theorem missing_id_resolves_to_none:
  assumes wf: "wf_matrix src_mat"
    and r: "fill_embedding_mat src_mat src_lex emb_lex emb_size = Inr T"
    and ij: "i < nrows src_mat" "j < ncols src_mat"
    and w: "0 < cells src_mat ! i ! j" "get src_lex (cells src_mat ! i ! j) = None"
  shows "lower (str (get src_lex (cells src_mat ! i ! j))) = ''none''
       \<and> (case get emb_lex ''none'' of
            None \<Rightarrow> cells3 T ! i ! j = replicate (dim2 T) 0
          | Some v \<Rightarrow> broadcast (dim2 T) v = Inr (cells3 T ! i ! j))"
proof -
  have n: "lower (str (get src_lex (cells src_mat ! i ! j))) = ''none''"
    using w(2) lower_None by simp
  from fill_embedding_mat_Inr[OF r wf] ij
  have "cell_written src_lex emb_lex (dim2 T) (cells src_mat ! i ! j)
          (replicate (dim2 T) 0) (cells3 T ! i ! j)" by blast
  with w(1) n have "case get emb_lex ''none'' of
            None \<Rightarrow> cells3 T ! i ! j = replicate (dim2 T) 0
          | Some v \<Rightarrow> broadcast (dim2 T) v = Inr (cells3 T ! i ! j)"
    by (simp add: cell_written_def split: option.splits)
  with n show ?thesis by blast
qed

theorem missing_id_resolves_to_none_witness:
  "wf_matrix \<lparr>nrows = 1, ncols = 2, cells = [[7, 1 :: int]]\<rparr>
   \<and> fill_embedding_mat \<lparr>nrows = 1, ncols = 2, cells = [[7, 1]]\<rparr>
        [(1, ''Cat'')] [(''none'', [9, 9 :: real])] 2
      = Inr \<lparr>dim0 = 1, dim1 = 2, dim2 = 2, cells3 = [[[9, 9], [0, 0]]]\<rparr>
   \<and> get [(1 :: int, ''Cat'')]
        (cells \<lparr>nrows = 1, ncols = 2, cells = [[7, 1 :: int]]\<rparr> ! 0 ! 0) = None
   \<and> lower (str (get [(1 :: int, ''Cat'')]
        (cells \<lparr>nrows = 1, ncols = 2, cells = [[7, 1 :: int]]\<rparr> ! 0 ! 0))) = ''none''
   \<and> broadcast 2 [9, 9 :: real] = Inr [9, 9]"
proof -
  let ?src = "\<lparr>nrows = 1, ncols = 2, cells = [[7, 1 :: int]]\<rparr>"
  let ?T = "\<lparr>dim0 = 1, dim1 = 2, dim2 = 2, cells3 = [[[9, 9], [0, 0 :: real]]]\<rparr>"
  have wf: "wf_matrix ?src" by (simp add: wf_matrix_def)
  have e: "fill_embedding_mat ?src [(1, ''Cat'')] [(''none'', [9, 9 :: real])] 2 = Inr ?T"
    by code_simp
  have ij: "0 < nrows ?src" "0 < ncols ?src" by simp_all
  have w: "0 < cells ?src ! 0 ! 0" "get [(1, ''Cat'')] (cells ?src ! 0 ! 0) = None"
    by (simp_all add: get_def)
  from missing_id_resolves_to_none[OF wf e ij w]
  have "lower (str (get [(1, ''Cat'')] (cells ?src ! 0 ! 0))) = ''none''
      \<and> broadcast 2 [9, 9 :: real] = Inr [9, 9]" by (simp add: get_def)
  with wf e w show ?thesis by blast
qed

end
